theory Spec2Isabelle
  imports Complex_Main "HOL-Library.Sublist"
begin

section \<open>Quote localisation in \<^verbatim>\<open>src/app.py\<close>: the embedding of \<^verbatim>\<open>find_text_fuzzy\<close>\<close>

text \<open>
  The function \<^verbatim>\<open>find_text_fuzzy(pdf_bytes, text_quotes, threshold=85)\<close> (lines 42-120)
  is embedded as a pure function. What it takes from outside the repository is a
  parameter of the model: the two scorers of the module \<^verbatim>\<open>fuzz\<close> and the parser
  \<^verbatim>\<open>fitz.open\<close>. The warning it shows (\<^verbatim>\<open>st.warning\<close>) is returned beside the
  annotations, and every exception the body can raise is a value of \<open>py_error\<close>.
  The loop that calls the function for every uploaded document (lines 753-775) is
  embedded too.
\<close>

subsection \<open>Python strings\<close>

text \<open>
  A \<^verbatim>\<open>str\<close> is a list of code points; \<open>char\<close> has the code points 0 to 255.
  \<open>is_space\<close> is \<^verbatim>\<open>str.isspace\<close> on one of them, the class that \<^verbatim>\<open>\s\<close>,
  \<^verbatim>\<open>strip()\<close> and \<^verbatim>\<open>split()\<close> share: TAB to CR, FS to US, the space, NEL and
  the no-break space.
\<close>

definition is_space :: "char \<Rightarrow> bool" where
  "is_space c =
     (let n = (of_char c :: nat)
      in (9 \<le> n \<and> n \<le> 13) \<or> (28 \<le> n \<and> n \<le> 32) \<or> n = 133 \<or> n = 160)"

definition lower_char :: "char \<Rightarrow> char" where
  "lower_char c =
     (let n = (of_char c :: nat)
      in if (65 \<le> n \<and> n \<le> 90) \<or> (192 \<le> n \<and> n \<le> 222 \<and> n \<noteq> 215)
         then char_of (n + 32) else c)"

text \<open>\<^verbatim>\<open>s.lower()\<close>\<close>

definition lower :: "string \<Rightarrow> string" where
  "lower s = map lower_char s"

text \<open>\<^verbatim>\<open>re.sub(r'\s+', ' ', s)\<close>: every maximal run of whitespace becomes one space.\<close>

function collapse_ws :: "string \<Rightarrow> string" where
  "collapse_ws [] = []"
| "collapse_ws (c # cs) =
     (if is_space c then CHR '' '' # collapse_ws (dropWhile is_space cs)
      else c # collapse_ws cs)"
  by pat_completeness auto
termination
  by (relation "measure length") (auto simp: le_imp_less_Suc length_dropWhile_le)

text \<open>\<^verbatim>\<open>s.strip()\<close>\<close>

definition strip :: "string \<Rightarrow> string" where
  "strip s = rev (dropWhile is_space (rev (dropWhile is_space s)))"

text \<open>\<^verbatim>\<open>s.split()\<close>: the maximal runs of non-whitespace, in order.\<close>

function split_ws :: "string \<Rightarrow> string list" where
  "split_ws s =
     (case dropWhile is_space s of
        [] \<Rightarrow> []
      | c # cs \<Rightarrow> (c # takeWhile (\<lambda>d. \<not> is_space d) cs)
                 # split_ws (dropWhile (\<lambda>d. \<not> is_space d) cs))"
  by pat_completeness auto
termination
proof (relation "measure length")
  fix s :: string and c cs
  assume a: "dropWhile is_space s = c # cs"
  have "length (dropWhile (\<lambda>d. \<not> is_space d) cs) \<le> length cs"
    by (rule length_dropWhile_le)
  also have "length cs < length (dropWhile is_space s)"
    by (simp add: a)
  also have "\<dots> \<le> length s"
    by (rule length_dropWhile_le)
  finally show "(dropWhile (\<lambda>d. \<not> is_space d) cs, s) \<in> measure length"
    by simp
qed simp

declare split_ws.simps [simp del]

text \<open>\<^verbatim>\<open>" ".join(ws)\<close>\<close>

fun join_sp :: "string list \<Rightarrow> string" where
  "join_sp [] = []"
| "join_sp [w] = w"
| "join_sp (w # v # ws) = w @ CHR '' '' # join_sp (v # ws)"

text \<open>\<^verbatim>\<open>xs[a:b]\<close> for \<open>0 \<le> a\<close> and \<open>0 \<le> b\<close>: a slice is cut off at the end of the list
  and is empty when \<open>b \<le> a\<close>.\<close>

definition slice :: "'a list \<Rightarrow> nat \<Rightarrow> nat \<Rightarrow> 'a list" where
  "slice xs a b = take (b - a) (drop a xs)"

subsection \<open>Data\<close>

text \<open>
  A word of \<^verbatim>\<open>page.get_text("words")\<close> is the tuple
  \<^verbatim>\<open>(x0, y0, x1, y1, "word", block_no, line_no, word_no)\<close>. The coordinates are floats;
  the code only copies and subtracts them, so their type \<open>'c\<close> is left open and
  \<open>-\<close> is whatever subtraction that type has.
\<close>

record 'c word =
  w_x0 :: 'c
  w_y0 :: 'c
  w_x1 :: 'c
  w_y1 :: 'c
  w_text :: string
  block_no :: nat
  line_no :: nat
  word_no :: nat

text \<open>The values a query dict can hold under a key.\<close>

datatype pyval = PyStr string | PyNum rat | PyNone

text \<open>An item of \<^verbatim>\<open>text_quotes\<close>: a \<^verbatim>\<open>str\<close>, a \<^verbatim>\<open>dict\<close>, or anything else.\<close>

datatype raw_query = RawStr string | RawDict "string \<rightharpoonup> pyval" | RawOther pyval

text \<open>The dict appended at lines 107-115; the keys are prefixed with \<open>a_\<close>.\<close>

record 'c annotation =
  a_page :: nat
  a_x :: 'c
  a_y :: 'c
  a_width :: 'c
  a_height :: 'c
  a_color :: pyval
  a_quote :: string

text \<open>
  The exceptions of the body: \<^verbatim>\<open>query_item['text']\<close> without the key, \<^verbatim>\<open>re.sub\<close>
  on a value that is no \<^verbatim>\<open>str\<close> and the unpacking of \<^verbatim>\<open>None\<close> at line 101;
  whatever \<^verbatim>\<open>fitz.open\<close> raises at line 56 on bytes it cannot read; and whatever the
  iteration over the document or \<^verbatim>\<open>page.get_text\<close> raises at lines 57-58 on a page it
  cannot read.
\<close>

datatype py_error = KeyError | TypeError | OpenError string | PageError string

text \<open>
  A page of the opened document, as lines 57-58 see it: the exception raised when the
  page is reached, or the words that \<^verbatim>\<open>page.get_text("words")\<close> returns.
\<close>

type_synonym 'c page = "py_error + 'c word list"

text \<open>\<^verbatim>\<open>st.warning(f"Error in fuzzy search: {e}")\<close>\<close>

datatype warning = FuzzyWarning py_error

text \<open>
  The module \<^verbatim>\<open>fuzz\<close> of the library: two scorers with float results. A float is a
  rational number, and the code only compares the scores.
\<close>

record fuzz_lib =
  ratio :: "string \<Rightarrow> string \<Rightarrow> rat"
  partial_ratio :: "string \<Rightarrow> string \<Rightarrow> rat"

text \<open>
  What the specification calls a Match: the page index, the span
  \<^verbatim>\<open>best_window_indices\<close> and the score \<^verbatim>\<open>best_window_score\<close> that passed line 100.
\<close>

record match =
  m_page :: nat
  m_start :: nat
  m_end :: nat
  m_score :: rat

subsection \<open>The window scan (lines 80-98)\<close>

text \<open>
  The local variables of the scan, and two ghost variables: \<open>evaluated\<close> is the list
  of the windows \<open>(i, window_size)\<close> that reached line 93, in the order they did, and
  \<open>scored\<close> is the list of the calls of \<^verbatim>\<open>fuzz.ratio\<close> at line 94, each with its two
  arguments and its result.
\<close>

record scan_state =
  best_window_score :: rat
  best_window_indices :: "(nat \<times> nat) option"
  evaluated :: "(nat \<times> nat) list"
  scored :: "(string \<times> string \<times> rat) list"

text \<open>Lines 93-94: the score of the window of \<open>k\<close> words that starts at word \<open>i\<close>.\<close>

definition window_score :: "fuzz_lib \<Rightarrow> 'c word list \<Rightarrow> string \<Rightarrow> nat \<Rightarrow> nat \<Rightarrow> rat" where
  "window_score fuzz words quote_clean i k =
     (let window_text = join_sp (map w_text (slice words i (i + k)))
      in ratio fuzz (lower quote_clean) (lower window_text))"

text \<open>Lines 93-98: one window is scored, and recorded when it beats the best so far.\<close>

definition visit :: "fuzz_lib \<Rightarrow> 'c word list \<Rightarrow> string \<Rightarrow> nat \<times> nat \<Rightarrow> scan_state \<Rightarrow> scan_state" where
  "visit fuzz words quote_clean w st =
     (let i = fst w; window_size = snd w;
          window_text = join_sp (map w_text (slice words i (i + window_size)));
          ws = ratio fuzz (lower quote_clean) (lower window_text);
          st' = st\<lparr>evaluated := evaluated st @ [(i, window_size)],
                   scored := scored st @ [(lower quote_clean, lower window_text, ws)]\<rparr>
      in if ws > best_window_score st
         then st'\<lparr>best_window_score := ws, best_window_indices := Some (i, i + window_size)\<rparr>
         else st')"

text \<open>The inner loop (lines 89-98) over the sizes still to come; line 91 leaves it.\<close>

fun scan_sizes ::
  "fuzz_lib \<Rightarrow> 'c word list \<Rightarrow> string \<Rightarrow> nat \<Rightarrow> nat list \<Rightarrow> scan_state \<Rightarrow> scan_state" where
  "scan_sizes fuzz words quote_clean i [] st = st"
| "scan_sizes fuzz words quote_clean i (window_size # sizes) st =
     (if i + window_size > length words then st
      else scan_sizes fuzz words quote_clean i sizes
             (visit fuzz words quote_clean (i, window_size) st))"

text \<open>The outer loop (line 87) over the start indices still to come.\<close>

fun scan_starts ::
  "fuzz_lib \<Rightarrow> 'c word list \<Rightarrow> string \<Rightarrow> nat list \<Rightarrow> nat list \<Rightarrow> scan_state \<Rightarrow> scan_state" where
  "scan_starts fuzz words quote_clean sizes [] st = st"
| "scan_starts fuzz words quote_clean sizes (i # starts) st =
     scan_starts fuzz words quote_clean sizes starts
       (scan_sizes fuzz words quote_clean i sizes st)"

text \<open>
  \<^verbatim>\<open>range(max(1, quote_word_count - 2), quote_word_count + 5)\<close>. The count is not
  negative, and under \<open>max 1\<close> the subtraction of \<open>nat\<close>, which stops at 0, gives the
  bound that Python's gives.
\<close>

definition window_sizes :: "nat \<Rightarrow> nat list" where
  "window_sizes quote_word_count = [max 1 (quote_word_count - 2) ..< quote_word_count + 5]"

text \<open>Lines 80-98.\<close>

definition window_scan :: "fuzz_lib \<Rightarrow> 'c word list \<Rightarrow> string \<Rightarrow> scan_state" where
  "window_scan fuzz words quote_clean =
     (let quote_word_count = length (split_ws quote_clean)
      in scan_starts fuzz words quote_clean (window_sizes quote_word_count) [0 ..< length words]
           \<lparr>best_window_score = 0, best_window_indices = None, evaluated = [], scored = []\<rparr>)"

subsection \<open>One query on one page (lines 61-115)\<close>

definition default_color :: pyval where
  "default_color = PyStr ''rgba(255, 255, 0, 0.4)''"

text \<open>Line 65.\<close>

definition clean_quote :: "string \<Rightarrow> string" where
  "clean_quote quote = strip (collapse_ws quote)"

text \<open>Lines 100-101: the test of the best score, and the unpacking of the indices.\<close>

definition accept :: "rat \<Rightarrow> nat \<Rightarrow> scan_state \<Rightarrow> py_error + match option" where
  "accept threshold page_num st =
     (if best_window_score st \<ge> threshold
      then (case best_window_indices st of
              None \<Rightarrow> Inl TypeError
            | Some (start_idx, end_idx) \<Rightarrow>
                Inr (Some \<lparr>m_page = page_num + 1, m_start = start_idx, m_end = end_idx,
                           m_score = best_window_score st\<rparr>))
      else Inr None)"

text \<open>
  Lines 65-101 for the text of one query and the words of one page: the Match, if
  there is one, and the windows that were scored on the way.
\<close>

definition find_match ::
  "fuzz_lib \<Rightarrow> rat \<Rightarrow> nat \<Rightarrow> 'c word list \<Rightarrow> string
     \<Rightarrow> py_error + (match option \<times> (nat \<times> nat) list)" where
  "find_match fuzz threshold page_num words quote =
     (let quote_clean = clean_quote quote
      in if length quote_clean < 5 then Inr (None, [])
         else
           (let full_text = join_sp (map w_text words);
                score = partial_ratio fuzz (lower quote_clean) (lower full_text)
            in if score \<ge> threshold
               then (let st = window_scan fuzz words quote_clean
                     in case accept threshold page_num st of
                          Inl e \<Rightarrow> Inl e
                        | Inr m \<Rightarrow> Inr (m, evaluated st))
               else Inr (None, [])))"

text \<open>Lines 102-115: one annotation for each word of the span.\<close>

definition emit :: "'c::minus word list \<Rightarrow> pyval \<Rightarrow> string \<Rightarrow> match \<Rightarrow> 'c annotation list" where
  "emit words color quote m =
     (let matched_words = slice words (m_start m) (m_end m)
      in map (\<lambda>w. \<lparr>a_page = m_page m, a_x = w_x0 w, a_y = w_y0 w,
                    a_width = w_x1 w - w_x0 w, a_height = w_y1 w - w_y0 w,
                    a_color = color, a_quote = quote\<rparr>) matched_words)"

text \<open>
  The body of the loop over the queries (lines 61-115): the annotations it appends.
  Line 61 raises when the key is missing, line 62 never does, and line 65 raises
  on a value that is no \<^verbatim>\<open>str\<close>.
\<close>

definition query_step ::
  "fuzz_lib \<Rightarrow> rat \<Rightarrow> nat \<Rightarrow> 'c::minus word list \<Rightarrow> (string \<rightharpoonup> pyval)
     \<Rightarrow> py_error + 'c annotation list" where
  "query_step fuzz threshold page_num words query_item =
     (case query_item ''text'' of
        None \<Rightarrow> Inl KeyError
      | Some v \<Rightarrow>
          (let color = (case query_item ''color'' of None \<Rightarrow> default_color | Some c \<Rightarrow> c)
           in case v of
                PyStr quote \<Rightarrow>
                  (case find_match fuzz threshold page_num words quote of
                     Inl e \<Rightarrow> Inl e
                   | Inr (None, _) \<Rightarrow> Inr []
                   | Inr (Some m, _) \<Rightarrow> Inr (emit words color quote m))
              | _ \<Rightarrow> Inl TypeError))"

subsection \<open>The loops over the queries and the pages, and the function (lines 46-120)\<close>

text \<open>Lines 48-53: a \<^verbatim>\<open>str\<close> becomes a dict, a dict is kept, anything else is left out.\<close>

fun normalize_queries :: "raw_query list \<Rightarrow> (string \<rightharpoonup> pyval) list" where
  "normalize_queries [] = []"
| "normalize_queries (RawStr q # qs) =
     [''text'' \<mapsto> PyStr q, ''color'' \<mapsto> default_color] # normalize_queries qs"
| "normalize_queries (RawDict d # qs) = d # normalize_queries qs"
| "normalize_queries (RawOther v # qs) = normalize_queries qs"

text \<open>
  Line 60, from some query on: the exception that ended the loop, if one did, and
  \<^verbatim>\<open>annotations\<close> as it then is.
\<close>

fun run_queries ::
  "fuzz_lib \<Rightarrow> rat \<Rightarrow> nat \<Rightarrow> 'c::minus word list \<Rightarrow> (string \<rightharpoonup> pyval) list
     \<Rightarrow> 'c annotation list \<Rightarrow> py_error option \<times> 'c annotation list" where
  "run_queries fuzz threshold page_num words [] annotations = (None, annotations)"
| "run_queries fuzz threshold page_num words (query_item # queries) annotations =
     (case query_step fuzz threshold page_num words query_item of
        Inl e \<Rightarrow> (Some e, annotations)
      | Inr new \<Rightarrow> run_queries fuzz threshold page_num words queries (annotations @ new))"

text \<open>
  Line 57, from some page of \<^verbatim>\<open>enumerate(doc)\<close> on. A page that cannot be read raises
  at line 57 or 58, inside the \<^verbatim>\<open>try\<close>, with \<^verbatim>\<open>annotations\<close> as the pages before left it.
\<close>

fun run_pages ::
  "fuzz_lib \<Rightarrow> rat \<Rightarrow> (string \<rightharpoonup> pyval) list \<Rightarrow> (nat \<times> 'c::minus page) list
     \<Rightarrow> 'c annotation list \<Rightarrow> py_error option \<times> 'c annotation list" where
  "run_pages fuzz threshold queries [] annotations = (None, annotations)"
| "run_pages fuzz threshold queries ((page_num, Inl e) # pages) annotations = (Some e, annotations)"
| "run_pages fuzz threshold queries ((page_num, Inr words) # pages) annotations =
     (case run_queries fuzz threshold page_num words queries annotations of
        (Some e, annotations') \<Rightarrow> (Some e, annotations')
      | (None, annotations') \<Rightarrow> run_pages fuzz threshold queries pages annotations')"

text \<open>
  The function. \<open>fitz_open\<close> is \<^verbatim>\<open>fitz.open(stream=pdf_bytes, filetype="pdf")\<close> at line 56:
  the exception it raises, or the document, whose pages are read one by one as the loop
  of line 57 reaches them. \<^verbatim>\<open>enumerate(doc)\<close> is \<open>enumerate 0 doc\<close> of the list library.
  The \<^verbatim>\<open>except\<close> of line 117 takes every exception of lines 56-115, shows the warning of
  line 118 and goes on to line 120, which returns \<^verbatim>\<open>annotations\<close> as it then is. The
  result is that list and the warnings shown.
\<close>

definition find_text_fuzzy ::
  "('pdf \<Rightarrow> py_error + 'c::minus page list) \<Rightarrow> fuzz_lib \<Rightarrow> 'pdf \<Rightarrow> raw_query list \<Rightarrow> rat
     \<Rightarrow> 'c annotation list \<times> warning list" where
  "find_text_fuzzy fitz_open fuzz pdf_bytes text_quotes threshold =
     (let normalized_queries = normalize_queries text_quotes
      in case fitz_open pdf_bytes of
           Inl e \<Rightarrow> ([], [FuzzyWarning e])
         | Inr doc \<Rightarrow>
             (case run_pages fuzz threshold normalized_queries (enumerate 0 doc) [] of
                (Some e, annotations) \<Rightarrow> (annotations, [FuzzyWarning e])
              | (None, annotations) \<Rightarrow> (annotations, [])))"

subsection \<open>The documents of one upload (lines 753-775)\<close>

text \<open>
  Lines 758-775, from some tab of \<^verbatim>\<open>enumerate(tabs)\<close> on: for the tab \<open>i\<close>, when there
  are bytes with that index, the function is called on them with the evidence items and
  the threshold left at its default 85. What the tab then shows is the result of the
  call; the list has one entry for each call, with the index of the tab.
\<close>

fun show_tabs ::
  "('pdf \<Rightarrow> py_error + 'c::minus page list) \<Rightarrow> fuzz_lib \<Rightarrow> 'pdf list \<Rightarrow> raw_query list
     \<Rightarrow> (nat \<times> 'tab) list \<Rightarrow> (nat \<times> 'c annotation list \<times> warning list) list" where
  "show_tabs fitz_open fuzz all_pdf_bytes evidence_items [] = []"
| "show_tabs fitz_open fuzz all_pdf_bytes evidence_items ((i, tab) # tabs) =
     (if i < length all_pdf_bytes
      then (i, find_text_fuzzy fitz_open fuzz (all_pdf_bytes ! i) evidence_items 85)
           # show_tabs fitz_open fuzz all_pdf_bytes evidence_items tabs
      else show_tabs fitz_open fuzz all_pdf_bytes evidence_items tabs)"

text \<open>Lines 753-775: nothing is shown without bytes or without uploaded files.\<close>

definition pathway_viewer_tabs ::
  "('pdf \<Rightarrow> py_error + 'c::minus page list) \<Rightarrow> fuzz_lib \<Rightarrow> 'pdf list \<Rightarrow> 'tab list
     \<Rightarrow> raw_query list \<Rightarrow> (nat \<times> 'c annotation list \<times> warning list) list" where
  "pathway_viewer_tabs fitz_open fuzz all_pdf_bytes uploaded_files evidence_items =
     (if all_pdf_bytes \<noteq> [] \<and> uploaded_files \<noteq> []
      then show_tabs fitz_open fuzz all_pdf_bytes evidence_items (enumerate 0 uploaded_files)
      else [])"

subsection \<open>Definitions for the proofs\<close>

text \<open>
  The windows as the specification lists them: every start \<open>i\<close> below \<open>n\<close> in
  ascending order and, for each, the sizes of the range in ascending order, without
  those that reach beyond the last word.
\<close>

definition spec_windows :: "nat \<Rightarrow> nat \<Rightarrow> (nat \<times> nat) list" where
  "spec_windows n q =
     concat (map (\<lambda>i. map (Pair i) (filter (\<lambda>k. i + k \<le> n) (window_sizes q))) [0 ..< n])"

text \<open>The state before the first window (lines 83-84).\<close>

definition init_state :: scan_state where
  "init_state = \<lparr>best_window_score = 0, best_window_indices = None, evaluated = [], scored = []\<rparr>"

text \<open>The order of the scan on windows: by start index, then by size.\<close>

definition lex_less :: "nat \<times> nat \<Rightarrow> nat \<times> nat \<Rightarrow> bool" where
  "lex_less a b = (fst a < fst b \<or> (fst a = fst b \<and> snd a < snd b))"

text \<open>What holds of the state after the windows ws, visited from the initial state.\<close>

definition first_max :: "fuzz_lib \<Rightarrow> 'c word list \<Rightarrow> string \<Rightarrow> (nat \<times> nat) list \<Rightarrow> scan_state \<Rightarrow> bool" where
  "first_max fuzz words qc ws st =
     (evaluated st = ws \<and>
      (\<forall>r < length ws. window_score fuzz words qc (fst (ws ! r)) (snd (ws ! r)) \<le> best_window_score st) \<and>
      (case best_window_indices st of
         None \<Rightarrow> best_window_score st = 0
       | Some (s, e) \<Rightarrow>
           0 < best_window_score st \<and>
           (\<exists>p < length ws. ws ! p = (s, e - s) \<and> s \<le> e \<and>
              window_score fuzz words qc s (e - s) = best_window_score st \<and>
              (\<forall>r < p. window_score fuzz words qc (fst (ws ! r)) (snd (ws ! r)) < best_window_score st))))"

text \<open>An annotation carries the text of one of these query dicts.\<close>

definition quoted_by :: "(string \<rightharpoonup> pyval) list \<Rightarrow> 'c annotation \<Rightarrow> bool" where
  "quoted_by queries a = (\<exists>query_item \<in> set queries. query_item ''text'' = Some (PyStr (a_quote a)))"


text \<open>
  The steps of a run in the order the code takes them, each with its outcome: for every
  page in turn the reading of the page, which gives no annotation, and then, if it was
  read, one step for each query in turn.
\<close>

definition page_steps ::
  "fuzz_lib \<Rightarrow> rat \<Rightarrow> (string \<rightharpoonup> pyval) list \<Rightarrow> nat \<times> 'c::minus page
     \<Rightarrow> (py_error + 'c annotation list) list" where
  "page_steps fuzz threshold queries p =
     (case snd p of
        Inl e \<Rightarrow> [Inl e]
      | Inr words \<Rightarrow> Inr [] # map (query_step fuzz threshold (fst p) words) queries)"

definition run_steps ::
  "fuzz_lib \<Rightarrow> rat \<Rightarrow> (string \<rightharpoonup> pyval) list \<Rightarrow> 'c::minus page list
     \<Rightarrow> (py_error + 'c annotation list) list" where
  "run_steps fuzz threshold queries doc =
     concat (map (page_steps fuzz threshold queries) (enumerate 0 doc))"

text \<open>
  The normal output: the annotations of all the steps in their order, a step that
  raises giving none. It is what a run without an exception returns.
\<close>

definition normal_output ::
  "fuzz_lib \<Rightarrow> rat \<Rightarrow> (string \<rightharpoonup> pyval) list \<Rightarrow> 'c::minus page list \<Rightarrow> 'c annotation list" where
  "normal_output fuzz threshold queries doc =
     concat (map (\<lambda>s. case s of Inl e \<Rightarrow> [] | Inr new \<Rightarrow> new) (run_steps fuzz threshold queries doc))"

text \<open>Steps taken one after the other until one raises.\<close>

fun collect ::
  "(py_error + 'a list) list \<Rightarrow> 'a list \<Rightarrow> py_error option \<times> 'a list" where
  "collect [] acc = (None, acc)"
| "collect (Inl e # steps) acc = (Some e, acc)"
| "collect (Inr new # steps) acc = collect steps (acc @ new)"

subsection \<open>A scorer for closed examples\<close>

text \<open>
  The library is a parameter of every theorem below. Where a closed example needs a
  scorer, it is this one: the normalised Indel similarity, \<open>200 * lcs a b / (|a| + |b|)\<close>
  with \<open>lcs\<close> the length of a longest common subsequence, for \<^verbatim>\<open>fuzz.ratio\<close>, and the best
  such score of the shorter string against the windows of its length in the longer one
  for \<^verbatim>\<open>fuzz.partial_ratio\<close>, which is 0 when only one of the strings is empty. It is exact
  where the library rounds to a float.
\<close>

fun lcs :: "'a list \<Rightarrow> 'a list \<Rightarrow> nat" where
  "lcs [] ys = 0"
| "lcs (x # xs) [] = 0"
| "lcs (x # xs) (y # ys) =
     (if x = y then Suc (lcs xs ys) else max (lcs (x # xs) ys) (lcs xs (y # ys)))"

definition indel_ratio :: "string \<Rightarrow> string \<Rightarrow> rat" where
  "indel_ratio a b =
     (if a = [] \<and> b = [] then 100
      else of_nat (200 * lcs a b) / of_nat (length a + length b))"

definition alignments :: "nat \<Rightarrow> 'a list \<Rightarrow> 'a list list" where
  "alignments n long = map (\<lambda>i. take n (drop i long)) [0 ..< Suc (length long - n)]"

definition indel_partial_ratio :: "string \<Rightarrow> string \<Rightarrow> rat" where
  "indel_partial_ratio a b =
     (let short = (if length a \<le> length b then a else b);
          long = (if length a \<le> length b then b else a)
      in if short = [] then (if long = [] then 100 else 0)
         else fold max (map (indel_ratio short) (alignments (length short) long)) 0)"

definition indel :: fuzz_lib where
  "indel = \<lparr>ratio = indel_ratio, partial_ratio = indel_partial_ratio\<rparr>"

text \<open>A page for the examples: words of one line, 20 wide and 12 high, 30 apart.\<close>

definition word_at :: "nat \<Rightarrow> string \<Rightarrow> rat word" where
  "word_at n t =
     \<lparr>w_x0 = 72 + 30 * of_nat n, w_y0 = 100, w_x1 = 92 + 30 * of_nat n, w_y1 = 112,
      w_text = t, block_no = 0, line_no = 0, word_no = n\<rparr>"

definition demo_words :: "rat word list" where
  "demo_words = [word_at 0 ''To'', word_at 1 ''be'', word_at 2 ''to'', word_at 3 ''be'']"

text \<open>A quote that the page holds twice, the Match it gets and the windows scored for it.\<close>

definition demo_quote :: string where
  "demo_quote = '' to   BE ''"

definition demo_match :: match where
  "demo_match = \<lparr>m_page = 1, m_start = 0, m_end = 2, m_score = 100\<rparr>"

definition demo_trace :: "(nat \<times> nat) list" where
  "demo_trace = [(0, 1), (0, 2), (0, 3), (0, 4), (1, 1), (1, 2), (1, 3), (2, 1), (2, 2), (3, 1)]"

text \<open>
  A parser for the examples. It knows three documents: one page with the example words;
  an empty page and then that page; that page and then a page that cannot be read. For
  any other bytes it raises. The annotations are those of the first occurrence of the
  quote on the example page, as the first and as the second page of its document.
\<close>

definition demo_open :: "string \<Rightarrow> py_error + rat page list" where
  "demo_open pdf_bytes =
     (if pdf_bytes = ''%PDF-demo'' then Inr [Inr demo_words]
      else if pdf_bytes = ''%PDF-blank-first'' then Inr [Inr [], Inr demo_words]
      else if pdf_bytes = ''%PDF-bad-page-2'' then Inr [Inr demo_words, Inl (PageError ''page 2'')]
      else Inl (OpenError ''cannot open broken document''))"

definition demo_annotations_on :: "nat \<Rightarrow> rat annotation list" where
  "demo_annotations_on page =
     [\<lparr>a_page = page, a_x = 72, a_y = 100, a_width = 20, a_height = 12,
       a_color = default_color, a_quote = demo_quote\<rparr>,
      \<lparr>a_page = page, a_x = 102, a_y = 100, a_width = 20, a_height = 12,
       a_color = default_color, a_quote = demo_quote\<rparr>]"

definition demo_annotations :: "rat annotation list" where
  "demo_annotations = demo_annotations_on 1"

section \<open>The window scan\<close>

lemma scan_sizes_fold:
  "sorted ks \<Longrightarrow>
   scan_sizes fuzz words qc i ks st =
     fold (visit fuzz words qc) (map (Pair i) (filter (\<lambda>k. i + k \<le> length words) ks)) st"
proof (induction ks arbitrary: st)
  case Nil
  then show ?case by simp
next
  case (Cons k ks)
  show ?case
  proof (cases "i + k > length words")
    case True
    with Cons.prems have "filter (\<lambda>k. i + k \<le> length words) (k # ks) = []"
      by (auto simp: filter_empty_conv)
    with True show ?thesis by simp
  next
    case False
    with Cons show ?thesis by simp
  qed
qed

lemma scan_starts_fold:
  "sorted ks \<Longrightarrow>
   scan_starts fuzz words qc ks starts st =
     fold (visit fuzz words qc)
       (concat (map (\<lambda>i. map (Pair i) (filter (\<lambda>k. i + k \<le> length words) ks)) starts)) st"
  by (induction starts arbitrary: st) (simp_all add: scan_sizes_fold)

lemma window_scan_fold:
  "window_scan fuzz words qc =
     fold (visit fuzz words qc) (spec_windows (length words) (length (split_ws qc))) init_state"
  by (simp add: window_scan_def spec_windows_def init_state_def scan_starts_fold window_sizes_def Let_def)

lemma evaluated_visit: "evaluated (visit fuzz words qc w st) = evaluated st @ [w]"
  by (simp add: visit_def Let_def)

lemma evaluated_fold: "evaluated (fold (visit fuzz words qc) ws st) = evaluated st @ ws"
  by (induction ws arbitrary: st) (simp_all add: evaluated_visit)



lemma evaluated_window_scan:
  "evaluated (window_scan fuzz words qc) = spec_windows (length words) (length (split_ws qc))"
  by (simp add: window_scan_fold evaluated_fold init_state_def)

lemma in_spec_windows:
  "(i, k) \<in> set (spec_windows n q) \<longleftrightarrow> i < n \<and> max 1 (q - 2) \<le> k \<and> k < q + 5 \<and> i + k \<le> n"
  unfolding spec_windows_def window_sizes_def by auto


lemma sorted_spec_windows_aux:
  "sorted_wrt lex_less (concat (map (\<lambda>i. map (Pair i) (filter (\<lambda>k. i + k \<le> n) ks)) [0 ..< m]))"
  if "sorted_wrt (<) ks"
proof (induction m)
  case 0
  show ?case by simp
next
  case (Suc m)
  have "sorted_wrt lex_less (map (Pair m) (filter (\<lambda>k. m + k \<le> n) ks))"
    using that by (simp add: sorted_wrt_map lex_less_def sorted_wrt_filter)
  moreover have "\<forall>a \<in> set (concat (map (\<lambda>i. map (Pair i) (filter (\<lambda>k. i + k \<le> n) ks)) [0 ..< m])).
       \<forall>b \<in> set (map (Pair m) (filter (\<lambda>k. m + k \<le> n) ks)). lex_less a b"
    by (auto simp: lex_less_def)
  ultimately show ?case using Suc
    by (simp add: sorted_wrt_append)
qed

lemma sorted_spec_windows: "sorted_wrt lex_less (spec_windows n q)"
  unfolding spec_windows_def window_sizes_def
  by (rule sorted_spec_windows_aux) simp

lemma lex_less_irrefl: "\<not> lex_less a a"
  by (simp add: lex_less_def)

lemma lex_less_asym: "lex_less a b \<Longrightarrow> \<not> lex_less b a"
  by (auto simp: lex_less_def)

lemma spec_windows_nth_less:
  "p < length (spec_windows n q) \<Longrightarrow> r < p \<Longrightarrow> lex_less (spec_windows n q ! r) (spec_windows n q ! p)"
  using sorted_spec_windows [of n q] by (simp add: sorted_wrt_nth_less)

lemma spec_windows_less_nth:
  assumes "p < length (spec_windows n q)" "r < length (spec_windows n q)"
    and "lex_less (spec_windows n q ! r) (spec_windows n q ! p)"
  shows "r < p"
proof (rule ccontr)
  assume "\<not> r < p"
  then consider "r = p" | "p < r" by linarith
  then show False
  proof cases
    case 1
    with assms(3) show False by (simp add: lex_less_irrefl)
  next
    case 2
    from spec_windows_nth_less [OF assms(2) 2] assms(3) show False
      by (simp add: lex_less_asym)
  qed
qed


lemma first_max_init: "first_max fuzz words qc [] init_state"
  by (simp add: first_max_def init_state_def)

lemma visit_better:
  assumes "window_score fuzz words qc (fst w) (snd w) > best_window_score st"
  shows "best_window_score (visit fuzz words qc w st) = window_score fuzz words qc (fst w) (snd w)"
    and "best_window_indices (visit fuzz words qc w st) = Some (fst w, fst w + snd w)"
  using assms by (simp_all add: visit_def window_score_def Let_def)

lemma visit_not_better:
  assumes "\<not> window_score fuzz words qc (fst w) (snd w) > best_window_score st"
  shows "best_window_score (visit fuzz words qc w st) = best_window_score st"
    and "best_window_indices (visit fuzz words qc w st) = best_window_indices st"
  using assms by (simp_all add: visit_def window_score_def Let_def)

lemma first_max_visit:
  assumes "first_max fuzz words qc ws st"
  shows "first_max fuzz words qc (ws @ [w]) (visit fuzz words qc w st)"
proof (cases "window_score fuzz words qc (fst w) (snd w) > best_window_score st")
  case True
  note v = visit_better [OF True] evaluated_visit [of fuzz words qc w st]
  have le: "window_score fuzz words qc (fst (ws ! r)) (snd (ws ! r)) \<le> best_window_score st"
    if "r < length ws" for r
    using assms that by (simp add: first_max_def)
  have nonneg: "0 \<le> best_window_score st"
    using assms by (auto simp: first_max_def split: option.splits)
  have ev: "evaluated st = ws" using assms by (simp add: first_max_def)
  have a: "\<forall>r < length (ws @ [w]). window_score fuzz words qc (fst ((ws @ [w]) ! r)) (snd ((ws @ [w]) ! r))
          \<le> window_score fuzz words qc (fst w) (snd w)"
    using le True by (auto simp: nth_append less_Suc_eq dest!: le)
  have b: "\<forall>r < length ws. window_score fuzz words qc (fst ((ws @ [w]) ! r)) (snd ((ws @ [w]) ! r))
          < window_score fuzz words qc (fst w) (snd w)"
    using le True by (auto simp: nth_append dest!: le)
  have pos: "0 < window_score fuzz words qc (fst w) (snd w)" using nonneg True by simp
  have "\<exists>p < length (ws @ [w]). (ws @ [w]) ! p = (fst w, fst w + snd w - fst w) \<and>
      fst w \<le> fst w + snd w \<and>
      window_score fuzz words qc (fst w) (fst w + snd w - fst w) = window_score fuzz words qc (fst w) (snd w) \<and>
      (\<forall>r < p. window_score fuzz words qc (fst ((ws @ [w]) ! r)) (snd ((ws @ [w]) ! r))
         < window_score fuzz words qc (fst w) (snd w))"
    using b by (intro exI [of _ "length ws"]) simp
  with a pos ev show ?thesis
    unfolding first_max_def v by simp
next
  case False
  note v = visit_not_better [OF False] evaluated_visit [of fuzz words qc w st]
  have ev: "evaluated st = ws" using assms by (simp add: first_max_def)
  have a: "\<forall>r < length (ws @ [w]). window_score fuzz words qc (fst ((ws @ [w]) ! r)) (snd ((ws @ [w]) ! r))
          \<le> best_window_score st"
    using assms False by (auto simp: first_max_def nth_append less_Suc_eq)
  show ?thesis
  proof (cases "best_window_indices st")
    case None
    with assms a ev show ?thesis unfolding first_max_def v by simp
  next
    case (Some se)
    obtain s e where se: "se = (s, e)" by (cases se)
    from assms Some se obtain p where p: "p < length ws" "ws ! p = (s, e - s)" "s \<le> e"
      "window_score fuzz words qc s (e - s) = best_window_score st"
      "\<forall>r < p. window_score fuzz words qc (fst (ws ! r)) (snd (ws ! r)) < best_window_score st"
      and pos: "0 < best_window_score st"
      by (auto simp: first_max_def)
    have "p < length (ws @ [w])" "(ws @ [w]) ! p = (s, e - s)"
      "\<forall>r < p. window_score fuzz words qc (fst ((ws @ [w]) ! r)) (snd ((ws @ [w]) ! r)) < best_window_score st"
      using p by (auto simp: nth_append)
    then have "\<exists>p < length (ws @ [w]). (ws @ [w]) ! p = (s, e - s) \<and> s \<le> e \<and>
        window_score fuzz words qc s (e - s) = best_window_score st \<and>
        (\<forall>r < p. window_score fuzz words qc (fst ((ws @ [w]) ! r)) (snd ((ws @ [w]) ! r))
           < best_window_score st)"
      using p(3,4) by blast
    with pos a ev Some se show ?thesis
      unfolding first_max_def v by simp
  qed
qed

lemma first_max_fold:
  "first_max fuzz words qc ws st \<Longrightarrow>
   first_max fuzz words qc (ws @ vs) (fold (visit fuzz words qc) vs st)"
proof (induction vs arbitrary: ws st)
  case Nil
  then show ?case by simp
next
  case (Cons v vs)
  from Cons.IH [OF first_max_visit [OF Cons.prems, of v]] show ?case by simp
qed

lemma first_max_window_scan:
  "first_max fuzz words qc (spec_windows (length words) (length (split_ws qc))) (window_scan fuzz words qc)"
  using first_max_fold [OF first_max_init, of fuzz words qc]
  by (simp add: window_scan_fold)


lemma window_scan_upper:
  assumes "(i, j) \<in> set (evaluated (window_scan fuzz words qc))"
  shows "window_score fuzz words qc i j \<le> best_window_score (window_scan fuzz words qc)"
proof -
  let ?ws = "spec_windows (length words) (length (split_ws qc))"
  from assms obtain r where r: "r < length ?ws" "?ws ! r = (i, j)"
    by (auto simp: evaluated_window_scan in_set_conv_nth)
  from first_max_window_scan [of fuzz words qc] r(1)
  have "window_score fuzz words qc (fst (?ws ! r)) (snd (?ws ! r))
          \<le> best_window_score (window_scan fuzz words qc)"
    unfolding first_max_def by blast
  with r(2) show ?thesis by simp
qed




section \<open>Strings: lower case and tokens\<close>

lemma is_space_lower_char [simp]: "is_space (lower_char c) = is_space c"
proof -
  have "of_char (char_of (of_char c + 32 :: nat)) = ((of_char c + 32) mod 256 :: nat)"
    by (rule of_char_of)
  moreover have "(of_char c :: nat) < 256" by simp
  ultimately show ?thesis
    unfolding is_space_def lower_char_def Let_def
    by (auto simp: mod_if)
qed

lemma split_ws_space: "is_space c \<Longrightarrow> split_ws (c # s) = split_ws s"
  by (subst split_ws.simps, subst (2) split_ws.simps) simp

lemma split_ws_Nil [simp]: "split_ws [] = []"
  by (simp add: split_ws.simps)

lemma split_ws_token:
  assumes "w \<noteq> []" "\<forall>c \<in> set w. \<not> is_space c"
  shows "split_ws (w @ CHR '' '' # s) = w # split_ws s" and "split_ws w = [w]"
proof -
  obtain c cs where w: "w = c # cs" using assms(1) by (cases w) auto
  have sp: "is_space CHR '' ''" by (simp add: is_space_def)
  have c: "\<not> is_space c" and cs: "\<forall>d \<in> set cs. \<not> is_space d" using assms(2) w by auto
  have t: "takeWhile (\<lambda>d. \<not> is_space d) (cs @ CHR '' '' # s) = cs"
    using cs sp by (simp add: takeWhile_append2 takeWhile_tail)
  have d: "dropWhile (\<lambda>d. \<not> is_space d) (cs @ CHR '' '' # s) = CHR '' '' # s"
    using cs sp by (simp add: dropWhile_append2)
  have "split_ws (w @ CHR '' '' # s) = w # split_ws (CHR '' '' # s)"
    by (subst split_ws.simps) (simp add: w c t d)
  then show "split_ws (w @ CHR '' '' # s) = w # split_ws s"
    using sp by (simp add: split_ws_space)
  have t': "takeWhile (\<lambda>d. \<not> is_space d) cs = cs"
    and d': "dropWhile (\<lambda>d. \<not> is_space d) cs = []"
    using cs by simp_all
  show "split_ws w = [w]"
    by (subst split_ws.simps) (simp add: w c t' d')
qed

lemma split_ws_join_sp:
  "\<forall>w \<in> set ws. w \<noteq> [] \<and> (\<forall>c \<in> set w. \<not> is_space c) \<Longrightarrow> split_ws (join_sp ws) = ws"
proof (induction ws rule: join_sp.induct)
  case 1
  show ?case by simp
next
  case (2 w)
  then show ?case by (simp add: split_ws_token(2))
next
  case (3 w v ws)
  then show ?case by (simp add: split_ws_token(1))
qed

lemma lower_Nil [simp]: "lower [] = []"
  by (simp add: lower_def)

lemma lower_Cons [simp]: "lower (c # cs) = lower_char c # lower cs"
  by (simp add: lower_def)

lemma dropWhile_space_lower: "dropWhile is_space (lower s) = lower (dropWhile is_space s)"
  by (induction s) simp_all

lemma dropWhile_token_lower:
  "dropWhile (\<lambda>d. \<not> is_space d) (lower s) = lower (dropWhile (\<lambda>d. \<not> is_space d) s)"
  by (induction s) simp_all

lemma takeWhile_token_lower:
  "takeWhile (\<lambda>d. \<not> is_space d) (lower s) = lower (takeWhile (\<lambda>d. \<not> is_space d) s)"
  by (induction s) simp_all

lemma split_ws_lower: "split_ws (lower s) = map lower (split_ws s)"
proof (induction s rule: split_ws.induct)
  case (1 s)
  have L: "split_ws (lower s) =
      (case lower (dropWhile is_space s) of
         [] \<Rightarrow> []
       | c # cs \<Rightarrow> (c # takeWhile (\<lambda>d. \<not> is_space d) cs)
                  # split_ws (dropWhile (\<lambda>d. \<not> is_space d) cs))"
    by (subst split_ws.simps) (simp only: dropWhile_space_lower)
  have R: "split_ws s =
      (case dropWhile is_space s of
         [] \<Rightarrow> []
       | c # cs \<Rightarrow> (c # takeWhile (\<lambda>d. \<not> is_space d) cs)
                  # split_ws (dropWhile (\<lambda>d. \<not> is_space d) cs))"
    by (rule split_ws.simps)
  show ?case
  proof (cases "dropWhile is_space s")
    case Nil
    show ?thesis unfolding L R Nil by simp
  next
    case (Cons c cs)
    have "split_ws (lower (dropWhile (\<lambda>d. \<not> is_space d) cs)) =
          map lower (split_ws (dropWhile (\<lambda>d. \<not> is_space d) cs))"
      using "1.IH" [OF Cons] .
    then show ?thesis
      unfolding L R Cons by (simp add: takeWhile_token_lower dropWhile_token_lower)
  qed
qed

lemma proper_words_count:
  assumes "\<forall>w \<in> set ws. w \<noteq> [] \<and> (\<forall>c \<in> set w. \<not> is_space c)"
    and "lower (join_sp ws) = lower s"
  shows "length (split_ws s) = length ws"
proof -
  have "length (split_ws s) = length (split_ws (lower s))"
    by (simp add: split_ws_lower)
  also have "\<dots> = length (split_ws (lower (join_sp ws)))"
    by (simp add: assms(2))
  also have "\<dots> = length (split_ws (join_sp ws))"
    by (simp add: split_ws_lower)
  also have "\<dots> = length ws"
    by (simp add: split_ws_join_sp [OF assms(1)])
  finally show ?thesis .
qed

section \<open>The scorer of the examples\<close>

lemma lcs_Nil2 [simp]: "lcs xs [] = 0"
  by (cases xs) simp_all

lemma lcs_le_left: "lcs xs ys \<le> length xs"
  by (induction xs ys rule: lcs.induct) auto

lemma lcs_le_right: "lcs xs ys \<le> length ys"
  by (induction xs ys rule: lcs.induct) auto

lemma lcs_refl [simp]: "lcs xs xs = length xs"
  by (induction xs) simp_all

lemma lcs_full_eq: "lcs xs ys = length xs \<Longrightarrow> length xs = length ys \<Longrightarrow> xs = ys"
proof (induction xs ys rule: lcs.induct)
  case (3 x xs y ys)
  show ?case
  proof (cases "x = y")
    case True
    with 3 show ?thesis by simp
  next
    case False
    have "lcs (x # xs) ys \<le> length ys" by (rule lcs_le_right)
    moreover have "lcs xs (y # ys) \<le> length xs" by (rule lcs_le_left)
    ultimately show ?thesis using 3(4,5) False by simp
  qed
qed simp_all

lemma indel_ratio_le: "indel_ratio a b \<le> 100"
proof (cases "a = [] \<and> b = []")
  case True
  then show ?thesis by (simp add: indel_ratio_def)
next
  case False
  then have pos: "0 < length a + length b" by auto
  have "2 * lcs a b \<le> length a + length b"
    using lcs_le_left [of a b] lcs_le_right [of a b] by linarith
  then have "200 * lcs a b \<le> 100 * (length a + length b)" by simp
  then have "(of_nat (200 * lcs a b) :: rat) \<le> of_nat (100 * (length a + length b))"
    by (rule of_nat_mono)
  then have "(of_nat (200 * lcs a b) :: rat) \<le> 100 * of_nat (length a + length b)"
    by simp
  moreover have "(0::rat) < of_nat (length a + length b)"
    using pos by (simp del: of_nat_add)
  ultimately have "(of_nat (200 * lcs a b) :: rat) / of_nat (length a + length b) \<le> 100"
    by (simp add: pos_divide_le_eq)
  with False show ?thesis by (simp add: indel_ratio_def)
qed

lemma indel_ratio_refl: "indel_ratio a a = 100"
proof (cases "a = []")
  case True
  then show ?thesis by (simp add: indel_ratio_def)
next
  case False
  then have nz: "(of_nat (length a + length a) :: rat) \<noteq> 0"
    by (simp del: of_nat_add)
  have "(of_nat (200 * lcs a a) :: rat) = 100 * of_nat (length a + length a)"
    by simp
  then have "(of_nat (200 * lcs a a) :: rat) / of_nat (length a + length a) = 100"
    using nz by (metis nonzero_mult_div_cancel_right)
  with False show ?thesis by (simp only: indel_ratio_def if_False simp_thms)
qed

lemma indel_ratio_100D:
  assumes "indel_ratio a b = 100"
  shows "a = b"
proof (cases "a = [] \<and> b = []")
  case True
  then show ?thesis by simp
next
  case False
  then have pos: "0 < length a + length b" by auto
  then have posr: "(of_nat (length a + length b) :: rat) \<noteq> 0"
    by (simp del: of_nat_add)
  from assms False have "(of_nat (200 * lcs a b) :: rat) / of_nat (length a + length b) = 100"
    by (simp add: indel_ratio_def)
  then have "(of_nat (200 * lcs a b) :: rat) = 100 * of_nat (length a + length b)"
    using posr by (simp add: divide_eq_eq)
  then have "(of_nat (200 * lcs a b) :: rat) = of_nat (100 * (length a + length b))"
    by simp
  then have "200 * lcs a b = 100 * (length a + length b)"
    by (simp only: of_nat_eq_iff)
  then have e: "2 * lcs a b = length a + length b" by simp
  with lcs_le_left [of a b] lcs_le_right [of a b]
  have "lcs a b = length a" "length a = length b" by linarith+
  then show ?thesis by (rule lcs_full_eq)
qed

subsection \<open>Evaluation on the example page\<close>

lemmas eval_simps = find_match_def accept_def window_scan_def window_sizes_def visit_def
  window_score_def slice_def demo_words_def word_at_def indel_def indel_ratio_def
  indel_partial_ratio_def alignments_def Let_def lower_def lower_char_def char_of_def
  bit_Suc_0_iff upt_conv_Cons clean_quote_def strip_def is_space_def split_ws.simps
  demo_quote_def demo_match_def demo_trace_def

lemma demo_clean: "clean_quote demo_quote = ''to BE''"
  by (simp add: demo_quote_def clean_quote_def strip_def is_space_def)

lemma demo_window_scan:
  "best_window_score (window_scan indel demo_words ''to BE'') = 100"
  "best_window_indices (window_scan indel demo_words ''to BE'') = Some (0, 2)"
  "evaluated (window_scan indel demo_words ''to BE'') = demo_trace"
  by (simp_all add: eval_simps)

lemma demo_find_match:
  "find_match indel 85 0 demo_words demo_quote = Inr (Some demo_match, demo_trace)"
  by (simp add: eval_simps)

lemma demo_find_match_50:
  "find_match indel 50 0 demo_words demo_quote = Inr (Some demo_match, demo_trace)"
  by (simp add: eval_simps)

lemma demo_tie: "window_score indel demo_words ''to BE'' 2 2 = 100"
  by (simp add: eval_simps)

lemma demo_prefilter_low:
  "partial_ratio indel (lower (clean_quote ''zzzzz'')) (lower (join_sp (map w_text demo_words))) < 85"
  by (simp add: eval_simps)

lemma window_scan_best:
  assumes "best_window_indices (window_scan fuzz words qc) = Some (s, e)"
  shows "s \<le> e"
    and "(s, e - s) \<in> set (evaluated (window_scan fuzz words qc))"
    and "window_score fuzz words qc s (e - s) = best_window_score (window_scan fuzz words qc)"
    and "(i, j) \<in> set (evaluated (window_scan fuzz words qc)) \<Longrightarrow>
           window_score fuzz words qc i j \<le> best_window_score (window_scan fuzz words qc)"
    and "(i, j) \<in> set (evaluated (window_scan fuzz words qc)) \<Longrightarrow> lex_less (i, j) (s, e - s) \<Longrightarrow>
           window_score fuzz words qc i j < best_window_score (window_scan fuzz words qc)"
proof -
  let ?ws = "spec_windows (length words) (length (split_ws qc))"
  let ?st = "window_scan fuzz words qc"
  have fm: "first_max fuzz words qc ?ws ?st" by (rule first_max_window_scan)
  have ev: "evaluated ?st = ?ws" by (rule evaluated_window_scan)
  from fm assms obtain p where p: "p < length ?ws" "?ws ! p = (s, e - s)" "s \<le> e"
      "window_score fuzz words qc s (e - s) = best_window_score ?st"
      "\<forall>r < p. window_score fuzz words qc (fst (?ws ! r)) (snd (?ws ! r)) < best_window_score ?st"
    by (auto simp: first_max_def)
  have le: "\<forall>r < length ?ws. window_score fuzz words qc (fst (?ws ! r)) (snd (?ws ! r)) \<le> best_window_score ?st"
    using fm by (simp add: first_max_def)
  show "s \<le> e" by (rule p(3))
  show "(s, e - s) \<in> set (evaluated ?st)"
    unfolding ev using p(1,2) by (metis nth_mem)
  show "window_score fuzz words qc s (e - s) = best_window_score ?st" by (rule p(4))
  {
    assume "(i, j) \<in> set (evaluated ?st)"
    then obtain r where r: "r < length ?ws" "?ws ! r = (i, j)"
      unfolding ev by (auto simp: in_set_conv_nth)
    with le have "window_score fuzz words qc (fst (?ws ! r)) (snd (?ws ! r)) \<le> best_window_score ?st"
      by blast
    with r show "window_score fuzz words qc i j \<le> best_window_score ?st" by simp
  }
  {
    assume "(i, j) \<in> set (evaluated ?st)" and ll: "lex_less (i, j) (s, e - s)"
    then obtain r where r: "r < length ?ws" "?ws ! r = (i, j)"
      unfolding ev by (auto simp: in_set_conv_nth)
    have "r < p"
      by (rule spec_windows_less_nth [OF p(1) r(1)]) (simp add: r p ll)
    with p(5) have "window_score fuzz words qc (fst (?ws ! r)) (snd (?ws ! r)) < best_window_score ?st"
      by blast
    with r show "window_score fuzz words qc i j < best_window_score ?st" by simp
  }
qed

lemma window_scan_None:
  "best_window_indices (window_scan fuzz words qc) = None \<Longrightarrow>
   best_window_score (window_scan fuzz words qc) = 0"
  using first_max_window_scan [of fuzz words qc] by (simp add: first_max_def)

lemma find_match_SomeD:
  assumes "find_match fuzz threshold page_num words quote = Inr (Some m, tr)"
  shows "5 \<le> length (clean_quote quote)"
    and "threshold \<le> partial_ratio fuzz (lower (clean_quote quote)) (lower (join_sp (map w_text words)))"
    and "threshold \<le> best_window_score (window_scan fuzz words (clean_quote quote))"
    and "best_window_indices (window_scan fuzz words (clean_quote quote)) = Some (m_start m, m_end m)"
    and "m_score m = best_window_score (window_scan fuzz words (clean_quote quote))"
    and "m_page m = page_num + 1"
    and "tr = evaluated (window_scan fuzz words (clean_quote quote))"
  using assms
  by (auto simp: find_match_def accept_def Let_def split: if_splits option.splits sum.splits)

text \<open>
  Claim C2. The span of an emitted Match is a window that was scored, its score is the
  largest of all the windows scored for the pair, and every window that comes before it
  in the order of the scan (a smaller start index, or the same start index and a smaller
  size) has a strictly smaller score: among the windows that reach the maximum, the
  Match is the first one.
\<close>

theorem first_maximum_in_scan_order:
  assumes "find_match fuzz threshold page_num words quote = Inr (Some m, tr)"
  shows "\<exists>k. m_end m = m_start m + k \<and> (m_start m, k) \<in> set tr \<and>
           window_score fuzz words (clean_quote quote) (m_start m) k = m_score m \<and>
           (\<forall>(i, j) \<in> set tr.
              window_score fuzz words (clean_quote quote) i j \<le> m_score m \<and>
              ((i < m_start m \<or> (i = m_start m \<and> j < k)) \<longrightarrow>
                 window_score fuzz words (clean_quote quote) i j < m_score m))"
proof -
  note d = find_match_SomeD [OF assms]
  note b = window_scan_best [OF d(4)]
  let ?k = "m_end m - m_start m"
  have "m_end m = m_start m + ?k" using b(1) by simp
  moreover have "(m_start m, ?k) \<in> set tr" using b(2) d(7) by simp
  moreover have "window_score fuzz words (clean_quote quote) (m_start m) ?k = m_score m"
    using b(3) d(5) by simp
  moreover have "\<forall>(i, j) \<in> set tr.
      window_score fuzz words (clean_quote quote) i j \<le> m_score m \<and>
      ((i < m_start m \<or> (i = m_start m \<and> j < ?k)) \<longrightarrow>
         window_score fuzz words (clean_quote quote) i j < m_score m)"
    using b(4,5) d(5,7) by (auto simp: lex_less_def)
  ultimately show ?thesis by blast
qed

text \<open>
  On the example page the quote occurs at the words 0-1 and 2-3; both windows score 100,
  and the Match is the first.
\<close>

theorem first_maximum_in_scan_order_witness:
  "find_match indel 85 0 demo_words demo_quote = Inr (Some demo_match, demo_trace) \<and>
   window_score indel demo_words (clean_quote demo_quote) 2 2 = m_score demo_match \<and>
   (\<exists>k. m_end demo_match = m_start demo_match + k \<and> (m_start demo_match, k) \<in> set demo_trace \<and>
        window_score indel demo_words (clean_quote demo_quote) (m_start demo_match) k
          = m_score demo_match \<and>
        (\<forall>(i, j) \<in> set demo_trace.
           window_score indel demo_words (clean_quote demo_quote) i j \<le> m_score demo_match \<and>
           ((i < m_start demo_match \<or> (i = m_start demo_match \<and> j < k)) \<longrightarrow>
              window_score indel demo_words (clean_quote demo_quote) i j < m_score demo_match)))"
proof -
  have "window_score indel demo_words (clean_quote demo_quote) 2 2 = m_score demo_match"
    by (simp add: demo_clean demo_tie demo_match_def)
  with first_maximum_in_scan_order [OF demo_find_match] demo_find_match show ?thesis
    by blast
qed

text \<open>
  Claim C3. When the score of \<^verbatim>\<open>partial_ratio\<close> on the lower-cased clean quote and the
  lower-cased page text (the word texts joined by single spaces) is below the threshold,
  no window is scored, there is no Match, and the query adds no annotation on the page.
\<close>

theorem prefilter_below_threshold_skips_scan:
  assumes "partial_ratio fuzz (lower (clean_quote quote)) (lower (join_sp (map w_text words))) < threshold"
  shows "find_match fuzz threshold page_num words quote = Inr (None, []) \<and>
         (query_item ''text'' = Some (PyStr quote) \<longrightarrow>
            query_step fuzz threshold page_num words query_item = Inr [])"
  using assms by (simp add: find_match_def query_step_def Let_def)

theorem prefilter_below_threshold_skips_scan_witness:
  "partial_ratio indel (lower (clean_quote ''zzzzz'')) (lower (join_sp (map w_text demo_words))) < 85 \<and>
   find_match indel 85 0 demo_words ''zzzzz'' = Inr (None, []) \<and>
   query_step indel 85 0 demo_words [''text'' \<mapsto> PyStr ''zzzzz''] = Inr []"
  using prefilter_below_threshold_skips_scan
          [OF demo_prefilter_low, of 0 "[''text'' \<mapsto> PyStr ''zzzzz'']"] demo_prefilter_low
  by simp


text \<open>
  On the example page the quote has two tokens and the page four words: ten windows,
  ten calls, and the best score is that of the two windows with the text of the quote.
\<close>

lemma demo_scored:
  "scored (window_scan indel demo_words ''to BE'') =
     [(''to be'', ''to'', 400 / 7), (''to be'', ''to be'', 100), (''to be'', ''to be to'', 1000 / 13),
      (''to be'', ''to be to be'', 125 / 2), (''to be'', ''be'', 400 / 7), (''to be'', ''be to'', 40),
      (''to be'', ''be to be'', 1000 / 13), (''to be'', ''to'', 400 / 7), (''to be'', ''to be'', 100),
      (''to be'', ''be'', 400 / 7)]"
  by (simp add: eval_simps)


text \<open>
  Claim C10. With a threshold above 0, whenever the best score of the scan passes the
  test of line 100 the best indices are a pair and not \<^verbatim>\<open>None\<close>: the unpacking at
  line 101 succeeds and gives the Match.
\<close>

theorem accepted_best_window_present:
  assumes "0 < threshold"
    and "threshold \<le> best_window_score (window_scan fuzz words quote_clean)"
  shows "\<exists>start_idx end_idx.
           best_window_indices (window_scan fuzz words quote_clean) = Some (start_idx, end_idx) \<and>
           accept threshold page_num (window_scan fuzz words quote_clean) =
             Inr (Some \<lparr>m_page = page_num + 1, m_start = start_idx, m_end = end_idx,
                        m_score = best_window_score (window_scan fuzz words quote_clean)\<rparr>)"
proof (cases "best_window_indices (window_scan fuzz words quote_clean)")
  case None
  from window_scan_None [OF None] assms show ?thesis by simp
next
  case (Some se)
  then show ?thesis using assms(2) by (cases se) (simp add: accept_def)
qed

theorem accepted_best_window_present_witness:
  "(0::rat) < 85 \<and> 85 \<le> best_window_score (window_scan indel demo_words ''to BE'') \<and>
   (\<exists>start_idx end_idx.
      best_window_indices (window_scan indel demo_words ''to BE'') = Some (start_idx, end_idx) \<and>
      accept 85 0 (window_scan indel demo_words ''to BE'') =
        Inr (Some \<lparr>m_page = 0 + 1, m_start = start_idx, m_end = end_idx,
                   m_score = best_window_score (window_scan indel demo_words ''to BE'')\<rparr>))"
proof -
  have pos: "(0::rat) < 85" by simp
  have ge: "85 \<le> best_window_score (window_scan indel demo_words ''to BE'')"
    by (simp add: demo_window_scan)
  from accepted_best_window_present [OF pos ge, of 0] pos ge show ?thesis
    by blast
qed

text \<open>
  The threshold above 0 is needed: with the threshold 0 and a page without words the
  score 0 passes line 100 and line 101 raises.
\<close>

lemma unpack_fails_at_threshold_0:
  "accept 0 0 (window_scan indel ([] :: rat word list) ''abcde'') = Inl TypeError"
  by (simp add: accept_def window_scan_def)

section \<open>The loops over the queries and the pages\<close>

lemma normalize_queries_append:
  "normalize_queries (xs @ ys) = normalize_queries xs @ normalize_queries ys"
  by (induction xs rule: normalize_queries.induct) simp_all

lemma query_step_short:
  "query_item ''text'' = Some (PyStr quote) \<Longrightarrow> length (clean_quote quote) < 5 \<Longrightarrow>
   query_step fuzz threshold page_num words query_item = Inr []"
  by (simp add: query_step_def find_match_def Let_def)

lemma run_queries_remove:
  "query_step fuzz threshold page_num words q = Inr [] \<Longrightarrow>
   run_queries fuzz threshold page_num words (qs1 @ q # qs2) acc =
   run_queries fuzz threshold page_num words (qs1 @ qs2) acc"
  by (induction qs1 arbitrary: acc) (simp_all split: sum.splits)

lemma run_pages_remove:
  fixes pages :: "(nat \<times> 'c::minus page) list"
  assumes "\<And>page_num (words :: 'c word list). query_step fuzz threshold page_num words q = Inr []"
  shows "run_pages fuzz threshold (qs1 @ q # qs2) pages acc =
         run_pages fuzz threshold (qs1 @ qs2) pages acc"
proof (induction pages arbitrary: acc)
  case Nil
  show ?case by simp
next
  case (Cons p pages)
  obtain page_num page where p: "p = (page_num, page)" by (cases p)
  show ?case
  proof (cases page)
    case (Inl e)
    then show ?thesis unfolding p by simp
  next
    case (Inr words)
    have "run_queries fuzz threshold page_num words (qs1 @ q # qs2) acc =
          run_queries fuzz threshold page_num words (qs1 @ qs2) acc"
      by (rule run_queries_remove) (rule assms)
    then show ?thesis
      unfolding p Inr by (simp add: Cons.IH split: prod.splits option.splits)
  qed
qed

subsection \<open>A run as a sequence of steps\<close>

lemma collect_append:
  "collect (xs @ ys) acc =
     (case collect xs acc of (Some e, a) \<Rightarrow> (Some e, a) | (None, a) \<Rightarrow> collect ys a)"
  by (induction xs acc rule: collect.induct) simp_all

lemma collect_done: "collect (map Inr news) acc = (None, acc @ concat news)"
  by (induction news arbitrary: acc) simp_all

lemma collect_raised: "collect (map Inr news @ Inl e # rest) acc = (Some e, acc @ concat news)"
  by (simp add: collect_append collect_done)

lemma run_queries_collect:
  "run_queries fuzz threshold page_num words queries acc =
     collect (map (query_step fuzz threshold page_num words) queries) acc"
  by (induction queries arbitrary: acc) (simp_all split: sum.splits)

lemma run_pages_collect:
  "run_pages fuzz threshold queries pages acc =
     collect (concat (map (page_steps fuzz threshold queries) pages)) acc"
proof (induction pages arbitrary: acc)
  case Nil
  show ?case by simp
next
  case (Cons p pages)
  obtain page_num page where p: "p = (page_num, page)" by (cases p)
  show ?case
  proof (cases page)
    case (Inl e)
    then show ?thesis unfolding p by (simp add: page_steps_def)
  next
    case (Inr words)
    show ?thesis
      unfolding p Inr
      by (simp add: page_steps_def collect_append run_queries_collect Cons.IH
          split: prod.splits option.splits)
  qed
qed

lemma find_text_fuzzy_steps:
  assumes "fitz_open pdf_bytes = Inr doc"
  shows "find_text_fuzzy fitz_open fuzz pdf_bytes text_quotes threshold =
     (case collect (run_steps fuzz threshold (normalize_queries text_quotes) doc) [] of
        (Some e, annotations) \<Rightarrow> (annotations, [FuzzyWarning e])
      | (None, annotations) \<Rightarrow> (annotations, []))"
  using assms by (simp add: find_text_fuzzy_def run_pages_collect run_steps_def)

subsection \<open>Where the text of an annotation comes from\<close>

lemma query_step_quotes:
  "query_step fuzz threshold page_num words query_item = Inr anns \<Longrightarrow> a \<in> set anns \<Longrightarrow>
   query_item ''text'' = Some (PyStr (a_quote a))"
  by (auto simp: query_step_def emit_def Let_def
      split: option.splits pyval.splits sum.splits prod.splits)

lemma run_queries_quotes:
  "\<forall>a \<in> set acc. quoted_by all a \<Longrightarrow> set qs \<subseteq> set all \<Longrightarrow>
   run_queries fuzz threshold page_num words qs acc = (r, acc') \<Longrightarrow>
   \<forall>a \<in> set acc'. quoted_by all a"
proof (induction qs arbitrary: acc)
  case Nil
  then show ?case by simp
next
  case (Cons q qs)
  show ?case
  proof (cases "query_step fuzz threshold page_num words q")
    case (Inl e)
    with Cons.prems show ?thesis by simp
  next
    case (Inr new)
    have "\<forall>a \<in> set new. quoted_by all a"
      using query_step_quotes [OF Inr] Cons.prems(2) by (auto simp: quoted_by_def)
    with Cons.prems(1) have "\<forall>a \<in> set (acc @ new). quoted_by all a" by auto
    moreover have "set qs \<subseteq> set all" using Cons.prems(2) by simp
    moreover have "run_queries fuzz threshold page_num words qs (acc @ new) = (r, acc')"
      using Cons.prems(3) Inr by simp
    ultimately show ?thesis by (rule Cons.IH)
  qed
qed

lemma run_pages_quotes:
  "\<forall>a \<in> set acc. quoted_by qs a \<Longrightarrow>
   run_pages fuzz threshold qs pages acc = (r, acc') \<Longrightarrow>
   \<forall>a \<in> set acc'. quoted_by qs a"
proof (induction pages arbitrary: acc)
  case Nil
  then show ?case by simp
next
  case (Cons p pages)
  obtain page_num page where p: "p = (page_num, page)" by (cases p)
  show ?case
  proof (cases page)
    case (Inl e)
    with Cons.prems p show ?thesis by simp
  next
    case (Inr words)
    obtain r1 acc1 where q: "run_queries fuzz threshold page_num words qs acc = (r1, acc1)"
      by (cases "run_queries fuzz threshold page_num words qs acc")
    have a1: "\<forall>a \<in> set acc1. quoted_by qs a"
      using Cons.prems(1) subset_refl q by (rule run_queries_quotes)
    show ?thesis
    proof (cases r1)
      case None
      with Cons.prems(2) p Inr q have "run_pages fuzz threshold qs pages acc1 = (r, acc')" by simp
      with a1 show ?thesis by (rule Cons.IH)
    next
      case (Some e)
      with Cons.prems(2) p Inr q have "acc' = acc1" by simp
      with a1 show ?thesis by simp
    qed
  qed
qed

lemma normalize_queries_text:
  "query_item \<in> set (normalize_queries raws) \<Longrightarrow> query_item ''text'' = Some (PyStr s) \<Longrightarrow>
   \<exists>q \<in> set raws. q = RawStr s \<or> (\<exists>d. q = RawDict d \<and> d ''text'' = Some (PyStr s))"
  by (induction raws rule: normalize_queries.induct) auto

lemma find_text_fuzzy_quotes:
  assumes "a \<in> set (fst (find_text_fuzzy fitz_open fuzz pdf_bytes text_quotes threshold))"
  shows "\<exists>q \<in> set text_quotes.
           q = RawStr (a_quote a) \<or> (\<exists>d. q = RawDict d \<and> d ''text'' = Some (PyStr (a_quote a)))"
proof (cases "fitz_open pdf_bytes")
  case (Inl e)
  with assms show ?thesis by (simp add: find_text_fuzzy_def)
next
  case (Inr doc)
  obtain r anns where rp:
    "run_pages fuzz threshold (normalize_queries text_quotes) (enumerate 0 doc) [] = (r, anns)"
    by (cases "run_pages fuzz threshold (normalize_queries text_quotes) (enumerate 0 doc) []")
  have "\<forall>a \<in> set anns. quoted_by (normalize_queries text_quotes) a"
    by (rule run_pages_quotes [OF _ rp]) simp
  moreover have "a \<in> set anns"
    using assms Inr rp by (cases r) (simp_all add: find_text_fuzzy_def)
  ultimately obtain query_item where "query_item \<in> set (normalize_queries text_quotes)"
      "query_item ''text'' = Some (PyStr (a_quote a))"
    by (auto simp: quoted_by_def)
  then show ?thesis by (rule normalize_queries_text)
qed

lemma find_match_span:
  assumes "find_match fuzz threshold page_num words quote = Inr (Some m, tr)"
  shows "m_start m \<le> m_end m" and "m_end m \<le> length words"
proof -
  note d = find_match_SomeD [OF assms]
  note b = window_scan_best [OF d(4)]
  show "m_start m \<le> m_end m" by (rule b(1))
  from b(2) have "(m_start m, m_end m - m_start m) \<in>
      set (spec_windows (length words) (length (split_ws (clean_quote quote))))"
    by (simp add: evaluated_window_scan)
  then have "m_start m + (m_end m - m_start m) \<le> length words"
    by (simp add: in_spec_windows)
  with b(1) show "m_end m \<le> length words" by simp
qed

subsection \<open>Thresholds above 0\<close>






subsection \<open>The tabs\<close>

lemma filter_less_upt: "filter (\<lambda>i. i < n) [0 ..< m] = [0 ..< min m n]"
proof (induction m)
  case 0
  show ?case by simp
next
  case (Suc m)
  then show ?case by (cases "m < n") (simp_all add: min_def)
qed

lemma show_tabs_enumerate:
  "show_tabs fitz_open fuzz all_pdf_bytes evidence_items (enumerate k tabs) =
     map (\<lambda>i. (i, find_text_fuzzy fitz_open fuzz (all_pdf_bytes ! i) evidence_items 85))
       (filter (\<lambda>i. i < length all_pdf_bytes) [k ..< k + length tabs])"
proof (induction tabs arbitrary: k)
  case Nil
  show ?case by simp
next
  case (Cons tab tabs)
  have "[k ..< k + length (tab # tabs)] = k # [Suc k ..< k + length (tab # tabs)]"
    by (rule upt_conv_Cons) simp
  then have u: "[k ..< k + length (tab # tabs)] = k # [Suc k ..< Suc k + length tabs]"
    by simp
  show ?case
    unfolding u by (simp add: Cons.IH)
qed

lemma pathway_viewer_tabs_eq:
  assumes "all_pdf_bytes \<noteq> []" "uploaded_files \<noteq> []"
  shows "pathway_viewer_tabs fitz_open fuzz all_pdf_bytes uploaded_files evidence_items =
     map (\<lambda>i. (i, find_text_fuzzy fitz_open fuzz (all_pdf_bytes ! i) evidence_items 85))
       [0 ..< min (length uploaded_files) (length all_pdf_bytes)]"
  using assms
  by (simp add: pathway_viewer_tabs_def show_tabs_enumerate filter_less_upt)

subsection \<open>The function on the example documents\<close>

lemma demo_query_step_on:
  "t \<le> 100 \<Longrightarrow>
   query_step indel t n demo_words [''text'' \<mapsto> PyStr demo_quote, ''color'' \<mapsto> default_color] = Inr (demo_annotations_on (Suc n))"
  by (simp add: query_step_def eval_simps emit_def demo_annotations_on_def)

lemma demo_query_step:
  "query_step indel 85 0 demo_words [''text'' \<mapsto> PyStr demo_quote, ''color'' \<mapsto> default_color] = Inr demo_annotations"
  using demo_query_step_on [of 85 0] by (simp add: demo_annotations_def)



lemma demo_find_text_fuzzy:
  "find_text_fuzzy demo_open indel ''%PDF-demo'' [RawStr demo_quote] 85 = (demo_annotations, [])"
  by (simp add: find_text_fuzzy_def demo_open_def enumerate_eq_zip demo_query_step)

lemma demo_find_text_fuzzy_dict:
  "find_text_fuzzy demo_open indel ''%PDF-demo'' [RawDict [''text'' \<mapsto> PyStr demo_quote, ''color'' \<mapsto> default_color]] 85 = (demo_annotations, [])"
  by (simp add: find_text_fuzzy_def demo_open_def enumerate_eq_zip demo_query_step)



lemma demo_open_fails: "demo_open ''garbage'' = Inl (OpenError ''cannot open broken document'')"
  by (simp add: demo_open_def)

lemma demo_open_bad_page:
  "demo_open ''%PDF-bad-page-2'' = Inr [Inr demo_words, Inl (PageError ''page 2'')]"
  by (simp add: demo_open_def)

lemma demo_short: "length (clean_quote ''a  b'') < 5"
  by (simp add: clean_quote_def strip_def is_space_def)

text \<open>
  Claim C5. For a Match with the span \<open>[start, end)\<close> the query appends exactly
  \<open>end - start\<close> annotations, the \<open>j\<close>-th for the word \<open>start + j\<close> of the page: its
  \<open>x0\<close> and \<open>y0\<close>, its width \<open>x1 - x0\<close> and height \<open>y1 - y0\<close>, the colour of the query
  (the default colour when the query has none), the page index of the Match, which is the
  page number plus 1, and the text of the query as it was given. And every annotation
  that the function returns carries the text of one of the queries it was given.
\<close>

theorem annotations_of_a_match:
  fixes words :: "'c::minus word list"
    and fitz_open :: "'pdf \<Rightarrow> py_error + 'c page list"
  shows
  "(find_match fuzz threshold page_num words quote = Inr (Some m, tr) \<and>
    query_item ''text'' = Some (PyStr quote) \<longrightarrow>
      (\<exists>anns. query_step fuzz threshold page_num words query_item = Inr anns \<and>
         length anns = m_end m - m_start m \<and> m_end m \<le> length words \<and> m_page m = page_num + 1 \<and>
         (\<forall>j < m_end m - m_start m.
            anns ! j =
              \<lparr>a_page = m_page m,
               a_x = w_x0 (words ! (m_start m + j)), a_y = w_y0 (words ! (m_start m + j)),
               a_width = w_x1 (words ! (m_start m + j)) - w_x0 (words ! (m_start m + j)),
               a_height = w_y1 (words ! (m_start m + j)) - w_y0 (words ! (m_start m + j)),
               a_color = (case query_item ''color'' of None \<Rightarrow> default_color | Some c \<Rightarrow> c),
               a_quote = quote\<rparr>))) \<and>
   (\<forall>a \<in> set (fst (find_text_fuzzy fitz_open fuzz pdf_bytes text_quotes threshold)).
      \<exists>q \<in> set text_quotes.
        q = RawStr (a_quote a) \<or> (\<exists>d. q = RawDict d \<and> d ''text'' = Some (PyStr (a_quote a))))"
proof (intro conjI impI ballI)
  assume a: "find_match fuzz threshold page_num words quote = Inr (Some m, tr) \<and>
    query_item ''text'' = Some (PyStr quote)"
  then have fm: "find_match fuzz threshold page_num words quote = Inr (Some m, tr)"
    and qt: "query_item ''text'' = Some (PyStr quote)" by simp_all
  note sp = find_match_span [OF fm]
  let ?color = "case query_item ''color'' of None \<Rightarrow> default_color | Some c \<Rightarrow> c"
  have qs: "query_step fuzz threshold page_num words query_item = Inr (emit words ?color quote m)"
    using fm qt by (simp add: query_step_def)
  have len: "length (emit words ?color quote m) = m_end m - m_start m"
    using sp by (simp add: emit_def slice_def)
  have nth: "emit words ?color quote m ! j =
      \<lparr>a_page = m_page m,
       a_x = w_x0 (words ! (m_start m + j)), a_y = w_y0 (words ! (m_start m + j)),
       a_width = w_x1 (words ! (m_start m + j)) - w_x0 (words ! (m_start m + j)),
       a_height = w_y1 (words ! (m_start m + j)) - w_y0 (words ! (m_start m + j)),
       a_color = ?color, a_quote = quote\<rparr>" if "j < m_end m - m_start m" for j
    using that sp by (simp add: emit_def slice_def)
  from qs len nth sp(2) find_match_SomeD(6) [OF fm]
  show "\<exists>anns. query_step fuzz threshold page_num words query_item = Inr anns \<and>
         length anns = m_end m - m_start m \<and> m_end m \<le> length words \<and> m_page m = page_num + 1 \<and>
         (\<forall>j < m_end m - m_start m.
            anns ! j =
              \<lparr>a_page = m_page m,
               a_x = w_x0 (words ! (m_start m + j)), a_y = w_y0 (words ! (m_start m + j)),
               a_width = w_x1 (words ! (m_start m + j)) - w_x0 (words ! (m_start m + j)),
               a_height = w_y1 (words ! (m_start m + j)) - w_y0 (words ! (m_start m + j)),
               a_color = ?color, a_quote = quote\<rparr>)"
    by blast
next
  fix a
  assume "a \<in> set (fst (find_text_fuzzy fitz_open fuzz pdf_bytes text_quotes threshold))"
  then show "\<exists>q \<in> set text_quotes.
        q = RawStr (a_quote a) \<or> (\<exists>d. q = RawDict d \<and> d ''text'' = Some (PyStr (a_quote a)))"
    by (rule find_text_fuzzy_quotes)
qed

theorem annotations_of_a_match_witness:
  "find_match indel 85 0 demo_words demo_quote = Inr (Some demo_match, demo_trace) \<and>
   [''text'' \<mapsto> PyStr demo_quote, ''color'' \<mapsto> default_color] ''text'' = Some (PyStr demo_quote) \<and>
   query_step indel 85 0 demo_words [''text'' \<mapsto> PyStr demo_quote, ''color'' \<mapsto> default_color]
     = Inr demo_annotations \<and>
   length demo_annotations = m_end demo_match - m_start demo_match \<and>
   fst (find_text_fuzzy demo_open indel ''%PDF-demo'' [RawStr demo_quote] 85) = demo_annotations \<and>
   map a_quote demo_annotations = [demo_quote, demo_quote]"
proof -
  have t: "[''text'' \<mapsto> PyStr demo_quote, ''color'' \<mapsto> default_color] ''text'' = Some (PyStr demo_quote)"
    by simp
  from annotations_of_a_match
         [of indel 85 0 demo_words demo_quote demo_match demo_trace
             "[''text'' \<mapsto> PyStr demo_quote, ''color'' \<mapsto> default_color]"
             demo_open "''%PDF-demo''" "[RawStr demo_quote]"]
       demo_find_match t
  have "\<exists>anns. query_step indel 85 0 demo_words [''text'' \<mapsto> PyStr demo_quote, ''color'' \<mapsto> default_color]
            = Inr anns \<and> length anns = m_end demo_match - m_start demo_match"
    by blast
  then have "length demo_annotations = m_end demo_match - m_start demo_match"
    by (simp add: demo_query_step)
  with demo_find_match t demo_query_step demo_find_text_fuzzy show ?thesis
    by (simp add: demo_annotations_def demo_annotations_on_def)
qed

text \<open>
  Claim C6. When the document cannot be opened at line 56 the function returns no
  annotation and one warning, and raises nothing. In the loop over the uploaded documents
  (lines 753-775) the tab of such a document shows that result, and every tab shows what
  the function returns for its own document, whatever the other documents are.
\<close>

theorem unreadable_document_empty_with_warning:
  assumes "i < length uploaded_files" and "i < length all_pdf_bytes"
    and "fitz_open (all_pdf_bytes ! i) = Inl e"
  shows "find_text_fuzzy fitz_open fuzz (all_pdf_bytes ! i) text_quotes threshold
           = ([], [FuzzyWarning e]) \<and>
         length (pathway_viewer_tabs fitz_open fuzz all_pdf_bytes uploaded_files evidence_items)
           = min (length uploaded_files) (length all_pdf_bytes) \<and>
         pathway_viewer_tabs fitz_open fuzz all_pdf_bytes uploaded_files evidence_items ! i
           = (i, [], [FuzzyWarning e]) \<and>
         (\<forall>j < min (length uploaded_files) (length all_pdf_bytes).
            pathway_viewer_tabs fitz_open fuzz all_pdf_bytes uploaded_files evidence_items ! j
              = (j, find_text_fuzzy fitz_open fuzz (all_pdf_bytes ! j) evidence_items 85))"
proof -
  have ne: "all_pdf_bytes \<noteq> []" "uploaded_files \<noteq> []" using assms(1,2) by auto
  note eq = pathway_viewer_tabs_eq [OF ne, of fitz_open fuzz evidence_items]
  have failed: "find_text_fuzzy fitz_open fuzz (all_pdf_bytes ! i) qs t = ([], [FuzzyWarning e])"
    for qs t
    using assms(3) by (simp add: find_text_fuzzy_def)
  have nth: "pathway_viewer_tabs fitz_open fuzz all_pdf_bytes uploaded_files evidence_items ! j
      = (j, find_text_fuzzy fitz_open fuzz (all_pdf_bytes ! j) evidence_items 85)"
    if "j < min (length uploaded_files) (length all_pdf_bytes)" for j
    unfolding eq using that by simp
  have "i < min (length uploaded_files) (length all_pdf_bytes)" using assms(1,2) by simp
  from nth [OF this] have "pathway_viewer_tabs fitz_open fuzz all_pdf_bytes uploaded_files evidence_items ! i
      = (i, [], [FuzzyWarning e])"
    by (simp add: failed)
  moreover have "length (pathway_viewer_tabs fitz_open fuzz all_pdf_bytes uploaded_files evidence_items)
      = min (length uploaded_files) (length all_pdf_bytes)"
    unfolding eq by simp
  ultimately show ?thesis using failed nth by blast
qed

text \<open>
  Two uploaded files, the first with bytes that cannot be opened: its tab has the warning,
  and the tab of the second has the two annotations.
\<close>

theorem unreadable_document_empty_with_warning_witness:
  "(0::nat) < length [''a.pdf'', ''b.pdf''] \<and> (0::nat) < length [''garbage'', ''%PDF-demo''] \<and>
   demo_open ([''garbage'', ''%PDF-demo''] ! 0) = Inl (OpenError ''cannot open broken document'') \<and>
   find_text_fuzzy demo_open indel ([''garbage'', ''%PDF-demo''] ! 0) [RawDict [''text'' \<mapsto> PyStr demo_quote, ''color'' \<mapsto> default_color]] 85
     = ([], [FuzzyWarning (OpenError ''cannot open broken document'')]) \<and>
   pathway_viewer_tabs demo_open indel [''garbage'', ''%PDF-demo''] [''a.pdf'', ''b.pdf''] [RawDict [''text'' \<mapsto> PyStr demo_quote, ''color'' \<mapsto> default_color]]
     = [(0, [], [FuzzyWarning (OpenError ''cannot open broken document'')]),
        (1, demo_annotations, [])]"
proof -
  have a: "(0::nat) < length [''a.pdf'', ''b.pdf'']" and b: "(0::nat) < length [''garbage'', ''%PDF-demo'']"
    by simp_all
  have c: "demo_open ([''garbage'', ''%PDF-demo''] ! 0) = Inl (OpenError ''cannot open broken document'')"
    by (simp add: demo_open_fails)
  note t = unreadable_document_empty_with_warning
    [where i = 0 and uploaded_files = "[''a.pdf'', ''b.pdf'']"
       and all_pdf_bytes = "[''garbage'', ''%PDF-demo'']" and fitz_open = demo_open
       and e = "OpenError ''cannot open broken document''" and fuzz = indel
       and text_quotes = "[RawDict [''text'' \<mapsto> PyStr demo_quote, ''color'' \<mapsto> default_color]]" and threshold = 85 and evidence_items = "[RawDict [''text'' \<mapsto> PyStr demo_quote, ''color'' \<mapsto> default_color]]",
     OF a b c]
  let ?r = "pathway_viewer_tabs demo_open indel [''garbage'', ''%PDF-demo''] [''a.pdf'', ''b.pdf'']
      [RawDict [''text'' \<mapsto> PyStr demo_quote, ''color'' \<mapsto> default_color]]"
  from t have len: "length ?r = 2" by simp
  from t have r0: "?r ! 0 = (0, [], [FuzzyWarning (OpenError ''cannot open broken document'')])"
    by blast
  from t have "?r ! 1 = (1, find_text_fuzzy demo_open indel ([''garbage'', ''%PDF-demo''] ! 1)
      [RawDict [''text'' \<mapsto> PyStr demo_quote, ''color'' \<mapsto> default_color]] 85)"
    by simp
  then have r1: "?r ! 1 = (1, demo_annotations, [])"
    by (simp add: demo_find_text_fuzzy_dict)
  have "?r = [?r ! 0, ?r ! 1]"
    using len by (intro nth_equalityI) (auto simp: less_Suc_eq numeral_2_eq_2)
  then have "?r = [(0, [], [FuzzyWarning (OpenError ''cannot open broken document'')]),
        (1, demo_annotations, [])]"
    unfolding r0 r1 .
  with a b c t show ?thesis by blast
qed

text \<open>
  Claim C7. A query whose text, with the whitespace collapsed and trimmed, has fewer than
  5 characters adds no annotation on any page and raises nothing: the function returns
  what it returns without that query, annotations and warnings alike.
\<close>

theorem short_query_contributes_nothing:
  fixes words :: "'c::minus word list"
    and fitz_open :: "'pdf \<Rightarrow> py_error + 'c page list"
  assumes "normalize_queries [q] = [query_item]"
    and "query_item ''text'' = Some (PyStr quote)"
    and "length (clean_quote quote) < 5"
  shows "query_step fuzz threshold page_num words query_item = Inr [] \<and>
         find_text_fuzzy fitz_open fuzz pdf_bytes (before @ q # after) threshold =
         find_text_fuzzy fitz_open fuzz pdf_bytes (before @ after) threshold"
proof -
  have s: "query_step fuzz threshold pn ws query_item = Inr []" for pn and ws :: "'c word list"
    using assms(2,3) by (rule query_step_short)
  have "normalize_queries (before @ [q] @ after) =
          normalize_queries before @ normalize_queries [q] @ normalize_queries after"
    by (simp only: normalize_queries_append)
  then have n: "normalize_queries (before @ q # after) =
          normalize_queries before @ query_item # normalize_queries after"
    by (simp add: assms(1))
  have n': "normalize_queries (before @ after) = normalize_queries before @ normalize_queries after"
    by (rule normalize_queries_append)
  have r: "run_pages fuzz threshold (normalize_queries (before @ q # after)) ps acc =
      run_pages fuzz threshold (normalize_queries (before @ after)) ps acc"
    for acc and ps :: "(nat \<times> 'c page) list"
    unfolding n n'
    by (rule run_pages_remove) (rule s)
  have "find_text_fuzzy fitz_open fuzz pdf_bytes (before @ q # after) threshold =
        find_text_fuzzy fitz_open fuzz pdf_bytes (before @ after) threshold"
    unfolding find_text_fuzzy_def Let_def r ..
  with s show ?thesis by blast
qed

theorem short_query_contributes_nothing_witness:
  "normalize_queries [RawStr ''a  b''] = [[''text'' \<mapsto> PyStr ''a  b'', ''color'' \<mapsto> default_color]] \<and>
   [''text'' \<mapsto> PyStr ''a  b'', ''color'' \<mapsto> default_color] ''text'' = Some (PyStr ''a  b'') \<and>
   length (clean_quote ''a  b'') < 5 \<and>
   query_step indel 85 0 demo_words [''text'' \<mapsto> PyStr ''a  b'', ''color'' \<mapsto> default_color] = Inr [] \<and>
   find_text_fuzzy demo_open indel ''%PDF-demo'' [RawStr demo_quote, RawStr ''a  b''] 85 =
     (demo_annotations, [])"
proof -
  have n: "normalize_queries [RawStr ''a  b''] =
      [[''text'' \<mapsto> PyStr ''a  b'', ''color'' \<mapsto> default_color]]"
    by simp
  have t: "[''text'' \<mapsto> PyStr ''a  b'', ''color'' \<mapsto> default_color] ''text'' = Some (PyStr ''a  b'')"
    by simp
  note c = short_query_contributes_nothing
         [where fuzz = indel and threshold = 85 and page_num = 0 and words = demo_words
            and fitz_open = demo_open and pdf_bytes = "''%PDF-demo''"
            and before = "[RawStr demo_quote]" and after = "[]", OF n t demo_short]
  from c have "find_text_fuzzy demo_open indel ''%PDF-demo'' [RawStr demo_quote, RawStr ''a  b''] 85 =
      find_text_fuzzy demo_open indel ''%PDF-demo'' [RawStr demo_quote] 85"
    by (simp only: append.simps)
  then have "find_text_fuzzy demo_open indel ''%PDF-demo'' [RawStr demo_quote, RawStr ''a  b''] 85 =
      (demo_annotations, [])"
    by (simp only: demo_find_text_fuzzy)
  with c n t demo_short show ?thesis by blast
qed





text \<open>
  Claim C9. When a step of the run raises (the reading of a page, or a query on a page)
  after the steps before it went through, the function returns the annotations that those
  steps appended, in their order, with one warning for the exception, and raises nothing.
  That list is the beginning of the normal output, which goes on with the annotations of
  the steps that were not reached.
\<close>

theorem error_keeps_accumulated_annotations:
  assumes "fitz_open pdf_bytes = Inr doc"
    and "run_steps fuzz threshold (normalize_queries text_quotes) doc = map Inr before @ Inl e # rest"
  shows "find_text_fuzzy fitz_open fuzz pdf_bytes text_quotes threshold
           = (concat before, [FuzzyWarning e]) \<and>
         normal_output fuzz threshold (normalize_queries text_quotes) doc
           = concat before @ concat (map (\<lambda>s. case s of Inl e \<Rightarrow> [] | Inr new \<Rightarrow> new) rest) \<and>
         prefix (concat before) (normal_output fuzz threshold (normalize_queries text_quotes) doc)"
proof -
  have "collect (run_steps fuzz threshold (normalize_queries text_quotes) doc) []
      = (Some e, concat before)"
    unfolding assms(2) by (simp add: collect_raised)
  then have r: "find_text_fuzzy fitz_open fuzz pdf_bytes text_quotes threshold
      = (concat before, [FuzzyWarning e])"
    by (simp add: find_text_fuzzy_steps [where fitz_open = fitz_open and pdf_bytes = pdf_bytes, OF assms(1)])
  have h: "map (case_sum (\<lambda>e. []) (\<lambda>new. new) \<circ> Inr) before = before"
    by (induction before) simp_all
  have n: "normal_output fuzz threshold (normalize_queries text_quotes) doc
      = concat before @ concat (map (\<lambda>s. case s of Inl e \<Rightarrow> [] | Inr new \<Rightarrow> new) rest)"
    unfolding normal_output_def assms(2) by (simp add: h)
  then have "prefix (concat before) (normal_output fuzz threshold (normalize_queries text_quotes) doc)"
    by simp
  with r n show ?thesis by blast
qed

text \<open>
  The same in terms of the loops, for a page that cannot be read: the annotations of the
  pages before it are returned.
\<close>

lemma unreadable_page_keeps_earlier_annotations:
  assumes "fitz_open pdf_bytes = Inr (pages_before @ Inl e # pages_after)"
    and "run_pages fuzz threshold (normalize_queries text_quotes) (enumerate 0 pages_before) []
           = (None, appended)"
  shows "find_text_fuzzy fitz_open fuzz pdf_bytes text_quotes threshold
           = (appended, [FuzzyWarning e])"
proof -
  let ?qs = "normalize_queries text_quotes"
  have en: "enumerate 0 (pages_before @ Inl e # pages_after) =
      enumerate 0 pages_before @ (length pages_before, Inl e) # enumerate (Suc (length pages_before)) pages_after"
    by (simp add: enumerate_append_eq)
  have "collect (concat (map (page_steps fuzz threshold ?qs) (enumerate 0 pages_before))) []
      = (None, appended)"
    using assms(2) by (simp add: run_pages_collect)
  then have "run_pages fuzz threshold ?qs (enumerate 0 (pages_before @ Inl e # pages_after)) []
      = (Some e, appended)"
    unfolding en run_pages_collect by (simp add: collect_append page_steps_def)
  then show ?thesis
    using assms(1) by (simp add: find_text_fuzzy_def)
qed

text \<open>A run in which no step raises returns the normal output and shows no warning.\<close>

lemma no_exception_normal_output:
  assumes "fitz_open pdf_bytes = Inr doc"
    and "run_steps fuzz threshold (normalize_queries text_quotes) doc = map Inr news"
  shows "find_text_fuzzy fitz_open fuzz pdf_bytes text_quotes threshold
           = (normal_output fuzz threshold (normalize_queries text_quotes) doc, [])"
proof -
  have h: "map (case_sum (\<lambda>e. []) (\<lambda>new. new) \<circ> Inr) news = news"
    by (induction news) simp_all
  show ?thesis
    unfolding find_text_fuzzy_steps [where fitz_open = fitz_open and pdf_bytes = pdf_bytes, OF assms(1)]
      normal_output_def assms(2)
    by (simp add: collect_done h)
qed

text \<open>
  On the document whose second page cannot be read, at the threshold 85: the two
  annotations of the first page are returned, with the warning.
\<close>

lemma bad_page_steps:
  "run_steps indel 85 (normalize_queries [RawStr demo_quote])
     [Inr demo_words, Inl (PageError ''page 2'')]
     = map Inr [[], demo_annotations] @ Inl (PageError ''page 2'') # []"
  by (simp add: run_steps_def page_steps_def enumerate_eq_zip upt_conv_Cons demo_query_step)

theorem error_keeps_accumulated_annotations_witness:
  "demo_open ''%PDF-bad-page-2'' = Inr [Inr demo_words, Inl (PageError ''page 2'')] \<and>
   run_steps indel 85 (normalize_queries [RawStr demo_quote])
     [Inr demo_words, Inl (PageError ''page 2'')]
     = map Inr [[], demo_annotations] @ Inl (PageError ''page 2'') # [] \<and>
   find_text_fuzzy demo_open indel ''%PDF-bad-page-2'' [RawStr demo_quote] 85
     = (demo_annotations, [FuzzyWarning (PageError ''page 2'')]) \<and>
   length demo_annotations = 2"
proof -
  note t = error_keeps_accumulated_annotations
    [where fitz_open = demo_open and pdf_bytes = "''%PDF-bad-page-2''"
       and doc = "[Inr demo_words, Inl (PageError ''page 2'')]" and fuzz = indel
       and threshold = 85 and text_quotes = "[RawStr demo_quote]"
       and before = "[[], demo_annotations]" and e = "PageError ''page 2''" and rest = "[]",
     OF demo_open_bad_page bad_page_steps]
  from t have "find_text_fuzzy demo_open indel ''%PDF-bad-page-2'' [RawStr demo_quote] 85
     = (demo_annotations, [FuzzyWarning (PageError ''page 2'')])"
    by simp
  moreover have "length demo_annotations = 2"
    by (simp add: demo_annotations_def demo_annotations_on_def)
  ultimately show ?thesis using demo_open_bad_page bad_page_steps by blast
qed

section \<open>Quotes that occur on the page\<close>

text \<open>
  A run of words whose text is the quote, and whose length is one of the sizes of the scan,
  is found: the best score is 100, and the Match is the first window with the text of the
  quote.
\<close>

lemma aligned_window_found:
  assumes bound: "\<forall>a b. ratio fuzz a b \<le> 100"
    and exact: "\<forall>a b. ratio fuzz a b = 100 \<longleftrightarrow> a = b"
    and thr: "threshold \<le> 100"
    and long: "5 \<le> length (clean_quote quote)"
    and pre: "threshold \<le> partial_ratio fuzz (lower (clean_quote quote)) (lower (join_sp (map w_text words)))"
    and fits: "i + k \<le> length words"
    and size: "k \<in> set (window_sizes (length (split_ws (clean_quote quote))))"
    and occ: "lower (join_sp (map w_text (slice words i (i + k)))) = lower (clean_quote quote)"
  shows "\<exists>m tr. find_match fuzz threshold page_num words quote = Inr (Some m, tr) \<and>
           m_score m = 100 \<and> m_page m = page_num + 1 \<and>
           (m_start m, m_end m - m_start m) \<in> set tr \<and>
           lower (join_sp (map w_text (slice words (m_start m) (m_end m)))) = lower (clean_quote quote) \<and>
           (m_start m < i \<or> (m_start m = i \<and> m_end m - m_start m \<le> k))"
proof -
  let ?qc = "clean_quote quote"
  let ?st = "window_scan fuzz words ?qc"
  have k1: "max 1 (length (split_ws ?qc) - 2) \<le> k" "k < length (split_ws ?qc) + 5"
    using size by (simp_all add: window_sizes_def)
  then have "i < length words" using fits by simp
  with k1 fits have mem: "(i, k) \<in> set (evaluated ?st)"
    by (simp add: evaluated_window_scan in_spec_windows)
  have sc: "window_score fuzz words ?qc i k = 100"
    using exact occ by (simp add: window_score_def)
  from window_scan_upper [OF mem] sc have ge: "100 \<le> best_window_score ?st" by simp
  obtain s e where se: "best_window_indices ?st = Some (s, e)"
  proof (cases "best_window_indices ?st")
    case None
    from window_scan_None [OF None] ge show ?thesis by simp
  next
    case (Some p)
    with that show ?thesis by (cases p) simp
  qed
  note b = window_scan_best [OF se]
  have "window_score fuzz words ?qc s (e - s) \<le> 100"
    using bound by (simp add: window_score_def)
  then have le: "best_window_score ?st \<le> 100"
    unfolding b(3) .
  with ge have best: "best_window_score ?st = 100" by simp
  have "ratio fuzz (lower ?qc) (lower (join_sp (map w_text (slice words s (s + (e - s)))))) = 100"
    using b(3) best by (simp add: window_score_def)
  then have "lower ?qc = lower (join_sp (map w_text (slice words s (s + (e - s)))))"
    using exact by simp
  then have same: "lower (join_sp (map w_text (slice words s e))) = lower ?qc"
    using b(1) by simp
  have first: "s < i \<or> (s = i \<and> e - s \<le> k)"
  proof (rule ccontr)
    assume "\<not> (s < i \<or> (s = i \<and> e - s \<le> k))"
    then have "lex_less (i, k) (s, e - s)" by (auto simp: lex_less_def)
    from b(5) [OF mem this] sc best show False by simp
  qed
  let ?m = "\<lparr>m_page = page_num + 1, m_start = s, m_end = e, m_score = best_window_score ?st\<rparr>"
  have "accept threshold page_num ?st = Inr (Some ?m)"
    using thr best se by (simp add: accept_def)
  then have "find_match fuzz threshold page_num words quote = Inr (Some ?m, evaluated ?st)"
    using long pre by (simp add: find_match_def Let_def)
  moreover have "m_score ?m = 100" using best by simp
  moreover have "(m_start ?m, m_end ?m - m_start ?m) \<in> set (evaluated ?st)" using b(2) by simp
  moreover have "lower (join_sp (map w_text (slice words (m_start ?m) (m_end ?m)))) = lower ?qc"
    using same by simp
  moreover have "m_start ?m < i \<or> (m_start ?m = i \<and> m_end ?m - m_start ?m \<le> k)"
    using first by simp
  moreover have "m_page ?m = page_num + 1" by simp
  ultimately show ?thesis by blast
qed

text \<open>
  Claim C1, amended. The claim fails for a quote that begins or ends inside a word: the
  scan only scores windows of whole words. What holds is this. Let the scorer give 100 to
  equal strings and less to all others, let the threshold be at most 100 and the prefilter
  pass, and let the lower-cased clean quote (of at least 5 characters) be the lower-cased
  text of the words \<open>i\<close> to \<open>i + k - 1\<close> of the page joined by single spaces, these words
  being non-empty and free of whitespace. Then the number of tokens of the quote is \<open>k\<close>,
  a size that is scanned; there is a Match, its score is 100, and its span is the first
  window in the order of the scan whose lower-cased text is the lower-cased clean quote
  (the given one, or an earlier occurrence).
\<close>

theorem token_aligned_occurrence_found:
  assumes bound: "\<forall>a b. ratio fuzz a b \<le> 100"
    and exact: "\<forall>a b. ratio fuzz a b = 100 \<longleftrightarrow> a = b"
    and thr: "threshold \<le> 100"
    and long: "5 \<le> length (clean_quote quote)"
    and pre: "threshold \<le> partial_ratio fuzz (lower (clean_quote quote)) (lower (join_sp (map w_text words)))"
    and fits: "i + k \<le> length words"
    and proper: "\<forall>w \<in> set (slice words i (i + k)). w_text w \<noteq> [] \<and> (\<forall>c \<in> set (w_text w). \<not> is_space c)"
    and occ: "lower (join_sp (map w_text (slice words i (i + k)))) = lower (clean_quote quote)"
  shows "length (split_ws (clean_quote quote)) = k \<and>
         (\<exists>m tr. find_match fuzz threshold page_num words quote = Inr (Some m, tr) \<and>
           m_score m = 100 \<and> m_page m = page_num + 1 \<and>
           (m_start m, m_end m - m_start m) \<in> set tr \<and>
           lower (join_sp (map w_text (slice words (m_start m) (m_end m)))) = lower (clean_quote quote) \<and>
           (m_start m < i \<or> (m_start m = i \<and> m_end m - m_start m \<le> k)))"
proof -
  let ?texts = "map w_text (slice words i (i + k))"
  have "\<forall>t \<in> set ?texts. t \<noteq> [] \<and> (\<forall>c \<in> set t. \<not> is_space c)"
    using proper by simp
  then have "length (split_ws (clean_quote quote)) = length ?texts"
    using occ by (rule proper_words_count)
  moreover have "length ?texts = k"
    using fits by (simp add: slice_def)
  ultimately have count: "length (split_ws (clean_quote quote)) = k" by simp
  have "k \<noteq> 0"
  proof
    assume "k = 0"
    then have "lower (clean_quote quote) = []" using occ by (simp add: slice_def)
    then have "clean_quote quote = []" by (simp add: lower_def)
    with long show False by simp
  qed
  then have "k \<in> set (window_sizes (length (split_ws (clean_quote quote))))"
    unfolding count window_sizes_def by auto
  from aligned_window_found [OF bound exact thr long pre fits this occ, of page_num] count
  show ?thesis by blast
qed

text \<open>
  On the example page the quote is the text of the words 2-3; the Match is at the words
  0-1, where it occurs first.
\<close>

lemma indel_bound: "\<forall>a b. ratio indel a b \<le> 100"
  by (simp add: indel_def indel_ratio_le)

lemma indel_exact: "\<forall>a b. ratio indel a b = 100 \<longleftrightarrow> a = b"
  using indel_ratio_refl indel_ratio_100D by (auto simp: indel_def)

lemma demo_prefilter:
  "85 \<le> partial_ratio indel (lower (clean_quote demo_quote)) (lower (join_sp (map w_text demo_words)))"
  by (simp add: eval_simps)

lemma demo_second_occurrence:
  "lower (join_sp (map w_text (slice demo_words 2 (2 + 2)))) = lower (clean_quote demo_quote)"
  by (simp add: eval_simps)

lemma demo_proper:
  "\<forall>w \<in> set (slice demo_words 2 (2 + 2)). w_text w \<noteq> [] \<and> (\<forall>c \<in> set (w_text w). \<not> is_space c)"
  by (simp add: slice_def demo_words_def word_at_def is_space_def)

theorem token_aligned_occurrence_found_witness:
  "(\<forall>a b. ratio indel a b \<le> 100) \<and> (\<forall>a b. ratio indel a b = 100 \<longleftrightarrow> a = b) \<and>
   (85::rat) \<le> 100 \<and> 5 \<le> length (clean_quote demo_quote) \<and>
   85 \<le> partial_ratio indel (lower (clean_quote demo_quote)) (lower (join_sp (map w_text demo_words))) \<and>
   lower (join_sp (map w_text (slice demo_words 2 (2 + 2)))) = lower (clean_quote demo_quote) \<and>
   length (split_ws (clean_quote demo_quote)) = 2 \<and>
   (\<exists>m tr. find_match indel 85 0 demo_words demo_quote = Inr (Some m, tr) \<and>
      m_score m = 100 \<and> m_page m = 0 + 1 \<and>
      (m_start m, m_end m - m_start m) \<in> set tr \<and>
      lower (join_sp (map w_text (slice demo_words (m_start m) (m_end m)))) = lower (clean_quote demo_quote) \<and>
      (m_start m < 2 \<or> (m_start m = 2 \<and> m_end m - m_start m \<le> 2)))"
proof -
  have thr: "(85::rat) \<le> 100" by simp
  have long: "5 \<le> length (clean_quote demo_quote)" by (simp add: demo_clean)
  have fits: "2 + 2 \<le> length demo_words" by (simp add: demo_words_def)
  from token_aligned_occurrence_found
         [OF indel_bound indel_exact thr long demo_prefilter fits demo_proper demo_second_occurrence, of 0]
       indel_bound indel_exact thr long demo_prefilter demo_second_occurrence
  show ?thesis by blast
qed

text \<open>
  Claim C1 as it is stated fails. The page has the one word \<^verbatim>\<open>Glycogenesis\<close> and the quote
  is \<^verbatim>\<open>cogen\<close>: the clean quote has 5 characters and lies inside the lower-cased page text,
  the prefilter gives 100, the one window scored is the whole word with the score
  \<open>1000 / 17\<close>, below 85, and there is no Match.
\<close>

lemma inner_scan:
  "best_window_score (window_scan indel [word_at 0 ''Glycogenesis''] ''cogen'') = 1000 / 17"
  "best_window_indices (window_scan indel [word_at 0 ''Glycogenesis''] ''cogen'') = Some (0, 1)"
  "evaluated (window_scan indel [word_at 0 ''Glycogenesis''] ''cogen'') = [(0, 1)]"
  by (simp_all add: eval_simps)

lemma inner_prefilter:
  "partial_ratio indel (lower ''cogen'') (lower (join_sp (map w_text [word_at 0 ''Glycogenesis''])))
     = 100"
  by (simp add: eval_simps)

lemma inner_clean: "clean_quote ''cogen'' = ''cogen''"
  by (simp add: eval_simps)

lemma inner_page_text:
  "lower (join_sp (map w_text [word_at 0 ''Glycogenesis''])) = ''gly'' @ lower ''cogen'' @ ''esis''"
  by (simp add: eval_simps)

theorem substring_inside_a_word_counterexample:
  "5 \<le> length (clean_quote ''cogen'') \<and>
   lower (join_sp (map w_text [word_at 0 ''Glycogenesis'']))
     = ''gly'' @ lower (clean_quote ''cogen'') @ ''esis'' \<and>
   partial_ratio indel (lower (clean_quote ''cogen''))
     (lower (join_sp (map w_text [word_at 0 ''Glycogenesis'']))) = 100 \<and>
   best_window_score (window_scan indel [word_at 0 ''Glycogenesis''] (clean_quote ''cogen'')) = 1000 / 17 \<and>
   find_match indel 85 0 [word_at 0 ''Glycogenesis''] ''cogen'' = Inr (None, [(0, 1)])"
proof -
  have "find_match indel 85 0 [word_at 0 ''Glycogenesis''] ''cogen'' = Inr (None, [(0, 1)])"
    unfolding find_match_def inner_clean Let_def inner_prefilter
    by (simp add: accept_def inner_scan)
  moreover have "5 \<le> length (clean_quote ''cogen'')"
    unfolding inner_clean by simp
  moreover have "lower (join_sp (map w_text [word_at 0 ''Glycogenesis'']))
      = ''gly'' @ lower (clean_quote ''cogen'') @ ''esis''"
    unfolding inner_clean by (rule inner_page_text)
  moreover have "partial_ratio indel (lower (clean_quote ''cogen''))
      (lower (join_sp (map w_text [word_at 0 ''Glycogenesis'']))) = 100"
    unfolding inner_clean by (rule inner_prefilter)
  moreover have "best_window_score (window_scan indel [word_at 0 ''Glycogenesis''] (clean_quote ''cogen''))
      = 1000 / 17"
    unfolding inner_clean by (rule inner_scan(1))
  ultimately show ?thesis by blast
qed

end
